theory Spec2Isabelle
  imports Complex_Main "HOL-Library.Word"
begin

section \<open>The reflection baker of core/reflection\_baker.cpp\<close>

text \<open>
  The development embeds \<^verbatim>\<open>ReflectionBaker::bake\<close>, \<^verbatim>\<open>ReflectionBaker::cancel\<close> and
  \<^verbatim>\<open>exportImpulseResponseAsWav\<close>. Every statement of the loop body is a function on an
  explicit state; every assertion, out-of-range array access and null dereference of the
  source is an \<open>Error\<close> value.
\<close>

subsection \<open>Values\<close>

text \<open>
  A C++ \<^verbatim>\<open>float\<close> is modelled by the rational it denotes, or NaN (the infinities are
  left out). The baker compares durations with \<^verbatim>\<open>==\<close>, which is false as soon as
  one side is NaN.
\<close>

datatype cfloat = Num rat | NaN

fun float_eq :: "cfloat \<Rightarrow> cfloat \<Rightarrow> bool" where
  "float_eq (Num a) (Num b) = (a = b)"
| "float_eq _ _ = False"

text \<open>
  The baker does arithmetic on floats in one place, the progress value of line 251. Every
  single-precision operation gives the exact result rounded to the nearest number with a
  significand of 24 bits, a tie going to the even significand (the default rounding mode).
  \<open>roundHalfEven\<close> rounds a rational to the nearest integer, ties to even;
  \<open>bitLength k\<close> is the number of binary digits of a positive integer; \<open>expo x\<close> is the
  binary exponent \<open>e\<close> of a positive \<open>x\<close>, with \<open>2 ^ e \<le> x < 2 ^ (e + 1)\<close>; \<open>round32 x\<close> is
  the nearest multiple of \<open>2 ^ (e - 23)\<close>. The exponent range of the format is left out:
  the operands of line 251 are two \<^verbatim>\<open>int\<close>s, below \<open>2 ^ 31\<close>, and every result lies
  between \<open>2 ^ (- 31)\<close> and \<open>2 ^ 31\<close>, where there is no overflow, no underflow and no
  subnormal number.
\<close>

definition roundHalfEven :: "rat \<Rightarrow> int" where
  "roundHalfEven x =
     (let f = \<lfloor>x\<rfloor>; d = x - of_int f
      in if d < 1 / 2 then f else if 1 / 2 < d then f + 1 else if even f then f else f + 1)"

function bitLength :: "int \<Rightarrow> nat" where
  "bitLength k = (if k \<le> 0 then 0 else Suc (bitLength (k div 2)))"
  by pat_completeness auto
termination
  by (relation "measure nat") auto

declare bitLength.simps [simp del]

definition expo :: "rat \<Rightarrow> int" where
  "expo x = (if 1 \<le> x then int (bitLength \<lfloor>x\<rfloor>) - 1
             else - int (bitLength (\<lceil>1 / x\<rceil> - 1)))"

definition round32 :: "rat \<Rightarrow> rat" where
  "round32 x =
     (if x = 0 then 0
      else let u = 2 powi (expo \<bar>x\<bar> - 23) in of_int (roundHalfEven (x / u)) * u)"

text \<open>The conversion of an \<^verbatim>\<open>int\<close> that is not negative to \<^verbatim>\<open>float\<close>.\<close>

definition int_to_float :: "nat \<Rightarrow> rat" where
  "int_to_float n = round32 (of_nat n)"

text \<open>
  Modelled from the spec: vectors, regions, probes and the probe batch are declared in
  headers that are not among the sources. The source reads the centre of a probe's influence
  region (\<^verbatim>\<open>probeBatch[i].influence.center\<close>) and the centre of the identifier's
  \<open>endpointInfluence\<close>, and asks the latter whether it contains a point.
\<close>

datatype Vector3f = Vector3f cfloat cfloat cfloat

record Sphere =
  center :: Vector3f
  radius :: cfloat

record Probe =
  influence :: Sphere

text \<open>
  Modelled from the spec: the enumerations \<^verbatim>\<open>BakedDataType\<close>, \<^verbatim>\<open>BakedDataVariation\<close> and
  \<^verbatim>\<open>SceneType\<close> are declared in headers that are not among the sources. The source names
  the members \<open>Reflections\<close>, \<open>Reverb\<close>, \<open>StaticSource\<close>, \<open>StaticListener\<close>, \<open>Dynamic\<close> and
  \<open>RadeonRays\<close> (the GPU ray tracer); every other scene type is a CPU backend.
\<close>

datatype BakedDataType = Reflections | Pathing

datatype BakedDataVariation = Reverb | StaticSource | StaticListener | Dynamic

datatype SceneType = Default | Embree | RadeonRays | Custom

record BakedDataIdentifier =
  type :: BakedDataType
  variation :: BakedDataVariation
  endpointInfluence :: Sphere

text \<open>
  Modelled from the spec: an Energy Field has a duration and an ambisonic order, both fixed
  at construction, and a buffer of energy values. A \<^verbatim>\<open>unique_ptr<EnergyField>\<close> is an
  \<open>EnergyField option\<close>, \<open>None\<close> being the null pointer. A Reverb is a small parametric
  descriptor.
\<close>

record EnergyField =
  efDuration :: cfloat
  efOrder :: int
  efData :: "cfloat list"

datatype ReverbDescriptor = ReverbTimes "cfloat list"

text \<open>
  Modelled from the spec: Baked Reflections Data is per-probe storage, sized to the probe
  count at construction, holding for each probe index an optional Reverb and an optional
  Energy Field, and two capability flags. The setters assign the flag; \<^verbatim>\<open>set\<close> stores at
  the index and overwrites what was there.
\<close>

record BakedReflectionsData =
  dataIdentifier :: BakedDataIdentifier
  dataNumProbes :: nat
  hasConvolution :: bool
  hasParametric :: bool
  storedReverb :: "nat \<Rightarrow> ReverbDescriptor option"
  storedEnergyField :: "nat \<Rightarrow> EnergyField option"

definition newBakedReflectionsData ::
  "BakedDataIdentifier \<Rightarrow> nat \<Rightarrow> bool \<Rightarrow> bool \<Rightarrow> BakedReflectionsData" where
  "newBakedReflectionsData ident n conv param =
     \<lparr>dataIdentifier = ident, dataNumProbes = n, hasConvolution = conv, hasParametric = param,
      storedReverb = (\<lambda>_. None), storedEnergyField = (\<lambda>_. None)\<rparr>"

definition setHasConvolution :: "bool \<Rightarrow> BakedReflectionsData \<Rightarrow> BakedReflectionsData" where
  "setHasConvolution b d = d\<lparr>hasConvolution := b\<rparr>"

definition setHasParametric :: "bool \<Rightarrow> BakedReflectionsData \<Rightarrow> BakedReflectionsData" where
  "setHasParametric b d = d\<lparr>hasParametric := b\<rparr>"

definition setReverb ::
  "nat \<Rightarrow> ReverbDescriptor \<Rightarrow> BakedReflectionsData \<Rightarrow> BakedReflectionsData" where
  "setReverb i r d = d\<lparr>storedReverb := (storedReverb d)(i := Some r)\<rparr>"

definition setEnergyField ::
  "nat \<Rightarrow> EnergyField option \<Rightarrow> BakedReflectionsData \<Rightarrow> BakedReflectionsData" where
  "setEnergyField i f d = d\<lparr>storedEnergyField := (storedEnergyField d)(i := f)\<rparr>"

record ProbeBatch =
  probes :: "Probe list"
  bakedData :: "BakedDataIdentifier \<Rightarrow> BakedReflectionsData option"

definition numProbes :: "ProbeBatch \<Rightarrow> nat" where
  "numProbes pb = length (probes pb)"

definition addData ::
  "BakedDataIdentifier \<Rightarrow> BakedReflectionsData \<Rightarrow> ProbeBatch \<Rightarrow> ProbeBatch" where
  "addData ident d pb = pb\<lparr>bakedData := (bakedData pb)(ident := Some d)\<rparr>"

subsection \<open>The diagnostic WAV writer\<close>

text \<open>
  Each \<^verbatim>\<open>outFile.write\<close> is one item of the file, in order. The 4-byte and 2-byte integers
  are words, so the conversions of the sizes to \<^verbatim>\<open>int\<close> and \<^verbatim>\<open>short\<close> truncate and
  \<^verbatim>\<open>36 + dataSize\<close> wraps around; \<^verbatim>\<open>sizeof(float)\<close> is 4. The last write sends
  \<^verbatim>\<open>dataSize\<close> bytes, that is \<^verbatim>\<open>dataSize / 4\<close> samples. Whether the stream could open the
  file is not modelled.
\<close>

datatype WavItem =
  Chars string | Int32 "32 word" | Int16 "16 word" | Floats "cfloat list"

definition exportImpulseResponseAsWav :: "cfloat list \<Rightarrow> 32 word \<Rightarrow> WavItem list" where
  "exportImpulseResponseAsWav impulseResponse sampleRate =
     (let dataSize = (word_of_nat (length impulseResponse) * 4 :: 32 word);
          fileSize = 36 + dataSize;
          fmtChunkSize = (16 :: 32 word);
          audioFormat = (3 :: 16 word);
          numChannels = (1 :: 16 word);
          byteRate = sampleRate * ucast numChannels * 4;
          blockAlign = numChannels * 4;
          bitsPerSample = (32 :: 16 word)
      in [Chars ''RIFF'', Int32 fileSize, Chars ''WAVE'', Chars ''fmt '',
          Int32 fmtChunkSize, Int16 audioFormat, Int16 numChannels, Int32 sampleRate,
          Int32 byteRate, Int16 blockAlign, Int16 bitsPerSample,
          Chars ''data'', Int32 dataSize,
          Floats (take (nat (sint dataSize) div 4) impulseResponse)])"

text \<open>\<^verbatim>\<open>std::to_string\<close> on a probe index, which is never negative.\<close>

definition digit_char :: "nat \<Rightarrow> char" where
  "digit_char d = char_of (48 + d)"

function to_string :: "nat \<Rightarrow> string" where
  "to_string n = (if n < 10 then [digit_char n] else to_string (n div 10) @ [digit_char (n mod 10)])"
  by pat_completeness auto
termination
  by (relation "measure (\<lambda>n. n)") auto

declare to_string.simps [simp del]

definition impulseResponsePath :: "nat \<Rightarrow> string" where
  "impulseResponsePath i = ''output/impulse_response_'' @ to_string i @ ''.wav''"

subsection \<open>Collaborators and state\<close>

text \<open>
  The collaborators are not among the sources and are parameters of the model:
  \<^verbatim>\<open>Sphere::contains\<close>; the simulator together with the thread pool that runs its job graph
  (and, on the GPU backend, the device-to-host copy), as the function that gives the content
  of output field \<open>j\<close> of the call with the given ordinal, endpoint counts and endpoint arrays
  (rays, bounces, duration, order and minimum distance are the same in every call of one
  bake); \<^verbatim>\<open>ReverbEstimator::estimate\<close> with the default air absorption model; the content that
  \<^verbatim>\<open>EnergyField::copyFrom\<close> leaves in its target; \<^verbatim>\<open>EnergyField::getImpulseResponse\<close>.

  Other threads may call \<^verbatim>\<open>cancel()\<close> while \<^verbatim>\<open>bake\<close> runs. Both flags are sequentially
  consistent atomics, so such a call takes effect at one point between two steps of
  \<^verbatim>\<open>bake\<close>, and the loop sees it when it next reads \<open>sCancel\<close> on line 254.
  \<open>cancelRequested i\<close> says that a call takes effect while the loop is at probe \<open>i\<close>,
  before that iteration reaches line 254: a call between line 99 and the loop counts for
  probe 0, and a call in iteration \<open>i\<close> after line 254 counts for probe \<open>i + 1\<close>.
  \<open>cancelAfterLoop\<close> says that a call takes effect after the loop has read the flag for
  the last time (it has run through the probes, or has left through the \<^verbatim>\<open>break\<close> of line
  257) and before line 262 lowers \<open>sBakeInProgress\<close>. A call before line 99 or after line
  262 is a call while no bake is in progress.
\<close>

record Env =
  contains :: "Sphere \<Rightarrow> Vector3f \<Rightarrow> bool"
  simulate :: "nat \<Rightarrow> int \<Rightarrow> Vector3f list \<Rightarrow> int \<Rightarrow> Vector3f list \<Rightarrow> nat \<Rightarrow> cfloat list"
  estimate :: "EnergyField \<Rightarrow> ReverbDescriptor"
  copyData :: "EnergyField \<Rightarrow> EnergyField \<Rightarrow> cfloat list"
  getImpulseResponse :: "EnergyField \<Rightarrow> cfloat list"
  cancelRequested :: "nat \<Rightarrow> bool"
  cancelAfterLoop :: bool

text \<open>
  The arguments of \<^verbatim>\<open>bake\<close> that the baker itself reads. \<open>callback\<close> says whether the
  progress callback is non-null.
\<close>

record BakeArgs =
  bakeIdentifier :: BakedDataIdentifier
  bakeConvolution :: bool
  bakeParametric :: bool
  simDuration :: cfloat
  bakeDuration :: cfloat
  order :: int
  bakeBatchSize :: int
  sceneType :: SceneType
  callback :: bool

datatype Error =
  AssertionFailed | BadArraySize | ArrayIndexOutOfBounds | NullPointerDereference

text \<open>
  One simulator call as the baker issues it, with the probes of its batch
  (\<open>indices[0..numValidInBatch)\<close>), the fields after the thread pool has run, and the
  loop index at which the batch closed.
\<close>

record SimCall =
  numSources :: int
  numListeners :: int
  callSources :: "Vector3f list"
  callListeners :: "Vector3f list"
  batchIndices :: "nat list"
  outFields :: "EnergyField option list"
  closedAt :: nat

text \<open>
  \<open>Globals\<close> are the two static flags. \<open>World\<close> adds the probe batch and what bakes have
  done so far: simulator calls, progress values passed to the callback, files written.
  \<open>BakeState\<close> adds the locals of \<^verbatim>\<open>bake\<close>: the Baked Reflections Data that
  \<^verbatim>\<open>probeBatch[identifier]\<close> refers to (put back into the batch when \<^verbatim>\<open>bake\<close> returns) and the
  per-batch arrays. The arrays \<^verbatim>\<open>directivities\<close> (always the default directivity) and
  \<^verbatim>\<open>energyFieldPtrs\<close> (the addresses of \<open>energyFields\<close>) carry nothing of their own.
\<close>

record Globals =
  sCancel :: bool
  sBakeInProgress :: bool

record World = Globals +
  probeBatch :: ProbeBatch
  simCalls :: "SimCall list"
  progressReports :: "rat list"
  filesWritten :: "(string \<times> WavItem list) list"

record BakeState = World +
  reflectionsData :: BakedReflectionsData
  sources :: "Vector3f list"
  listeners :: "Vector3f list"
  energyFields :: "EnergyField option list"
  indices :: "nat list"
  numValidInBatch :: nat

subsection \<open>cancel\<close>

definition cancel :: "'a Globals_scheme \<Rightarrow> 'a Globals_scheme" where
  "cancel g = (if sBakeInProgress g then g\<lparr>sCancel := True\<rparr> else g)"

subsection \<open>bake\<close>

text \<open>Lines 132 to 157: whether the probe is valid, and its source and listener.\<close>

definition selectEndpoints ::
  "Env \<Rightarrow> BakedDataIdentifier \<Rightarrow> Probe \<Rightarrow> (Vector3f \<times> Vector3f) option" where
  "selectEndpoints E ident p =
     (case variation ident of
        Reverb \<Rightarrow> Some (center (influence p), center (influence p))
      | StaticSource \<Rightarrow>
          if contains E (endpointInfluence ident) (center (influence p))
          then Some (center (endpointInfluence ident), center (influence p)) else None
      | StaticListener \<Rightarrow>
          if contains E (endpointInfluence ident) (center (influence p))
          then Some (center (influence p), center (endpointInfluence ident)) else None
      | Dynamic \<Rightarrow> None)"

definition probeValid :: "Env \<Rightarrow> BakedDataIdentifier \<Rightarrow> Probe \<Rightarrow> bool" where
  "probeValid E ident p = (selectEndpoints E ident p \<noteq> None)"

text \<open>\<^verbatim>\<open>EnergyFieldFactory::create\<close> and \<^verbatim>\<open>make_unique<EnergyField>\<close>: a field with nothing in it.\<close>

definition createEnergyField :: "cfloat \<Rightarrow> int \<Rightarrow> EnergyField" where
  "createEnergyField d n = \<lparr>efDuration = d, efOrder = n, efData = []\<rparr>"

definition copyFrom :: "Env \<Rightarrow> EnergyField \<Rightarrow> EnergyField \<Rightarrow> EnergyField" where
  "copyFrom E dst src = dst\<lparr>efData := copyData E dst src\<rparr>"

text \<open>Lines 132 to 166: a valid probe takes slot \<open>numValidInBatch\<close> of every array.\<close>

definition addProbe :: "Env \<Rightarrow> BakeArgs \<Rightarrow> nat \<Rightarrow> Probe \<Rightarrow> BakeState \<Rightarrow> Error + BakeState" where
  "addProbe E A i p s =
     (case selectEndpoints E (bakeIdentifier A) p of
        None \<Rightarrow> Inr s
      | Some (src, lst) \<Rightarrow>
          (let n = numValidInBatch s in
           if n < length (sources s) \<and> n < length (listeners s)
              \<and> n < length (energyFields s) \<and> n < length (indices s)
           then Inr (s\<lparr>sources := (sources s)[n := src],
                       listeners := (listeners s)[n := lst],
                       energyFields := (energyFields s)
                          [n := Some (createEnergyField (simDuration A) (order A))],
                       indices := (indices s)[n := i],
                       numValidInBatch := n + 1\<rparr>)
           else Inl ArrayIndexOutOfBounds))"

text \<open>Line 168.\<close>

definition batchCloses :: "BakeArgs \<Rightarrow> nat \<Rightarrow> nat \<Rightarrow> BakeState \<Rightarrow> bool" where
  "batchCloses A n i s = (int (numValidInBatch s) = bakeBatchSize A \<or> int i = int n - 1)"

text \<open>Lines 170 to 192, for a batch of \<open>k\<close> valid probes: (numSources, numListeners).\<close>

definition endpointCounts :: "SceneType \<Rightarrow> BakedDataVariation \<Rightarrow> nat \<Rightarrow> int \<times> int" where
  "endpointCounts st v k =
     (if st = RadeonRays then
        (case v of
           StaticSource \<Rightarrow> (1, int k)
         | StaticListener \<Rightarrow> (int k, 1)
         | Reverb \<Rightarrow> (int k, int k)
         | Dynamic \<Rightarrow> (int k, 1))
      else (int k, 1))"

text \<open>
  Lines 194 to 209: the simulator fills the fields of the valid probes of the batch through
  \<^verbatim>\<open>energyFieldPtrs\<close>.
\<close>

definition simulatedFields :: "Env \<Rightarrow> BakeArgs \<Rightarrow> BakeState \<Rightarrow> EnergyField option list" where
  "simulatedFields E A s =
     (let k = numValidInBatch s;
          c = endpointCounts (sceneType A) (variation (bakeIdentifier A)) k;
          fill = simulate E (length (simCalls s)) (fst c) (sources s) (snd c) (listeners s)
      in map (\<lambda>(j, f). if j < k then map_option (\<lambda>g. g\<lparr>efData := fill j\<rparr>) f else f)
             (enumerate 0 (energyFields s)))"

definition issuedCall :: "Env \<Rightarrow> BakeArgs \<Rightarrow> nat \<Rightarrow> BakeState \<Rightarrow> SimCall" where
  "issuedCall E A i s =
     (let k = numValidInBatch s;
          c = endpointCounts (sceneType A) (variation (bakeIdentifier A)) k
      in \<lparr>numSources = fst c, numListeners = snd c,
          callSources = sources s, callListeners = listeners s,
          batchIndices = take k (indices s), outFields = take k (simulatedFields E A s),
          closedAt = i\<rparr>)"

definition simulateBatch :: "Env \<Rightarrow> BakeArgs \<Rightarrow> nat \<Rightarrow> BakeState \<Rightarrow> BakeState" where
  "simulateBatch E A i s =
     s\<lparr>energyFields := simulatedFields E A s,
       simCalls := simCalls s @ [issuedCall E A i s]\<rparr>"

text \<open>Lines 211 to 220, the loop over \<open>j\<close>.\<close>

fun storeReverbs :: "Env \<Rightarrow> nat list \<Rightarrow> BakeState \<Rightarrow> Error + BakeState" where
  "storeReverbs E [] s = Inr s"
| "storeReverbs E (j # js) s =
     (if j < length (energyFields s) \<and> j < length (indices s) then
        (case energyFields s ! j of
           None \<Rightarrow> Inl NullPointerDereference
         | Some f \<Rightarrow>
             storeReverbs E js
               (s\<lparr>reflectionsData := setReverb (indices s ! j) (estimate E f) (reflectionsData s)\<rparr>))
      else Inl ArrayIndexOutOfBounds)"

text \<open>
  Lines 226 to 243, one pass of the loop over \<open>j\<close>: the field to store and what is left in
  \<open>energyFields[j]\<close>; the store; the impulse response of \<open>energyFields[j]\<close>, written as a WAV
  file.
\<close>

definition storeEnergyField :: "Env \<Rightarrow> BakeArgs \<Rightarrow> nat \<Rightarrow> BakeState \<Rightarrow> Error + BakeState" where
  "storeEnergyField E A j s =
     (if j < length (energyFields s) \<and> j < length (indices s) then
        (case (if float_eq (simDuration A) (bakeDuration A)
               then Inr (energyFields s ! j, (energyFields s)[j := None])
               else (case energyFields s ! j of
                       None \<Rightarrow> Inl NullPointerDereference
                     | Some f \<Rightarrow>
                         Inr (Some (copyFrom E (createEnergyField (bakeDuration A) (order A)) f),
                              energyFields s))) of
           Inl e \<Rightarrow> Inl e
         | Inr (energyField, efs) \<Rightarrow>
             (case efs ! j of
                None \<Rightarrow> Inl NullPointerDereference
              | Some f \<Rightarrow>
                  Inr (s\<lparr>energyFields := efs,
                         reflectionsData :=
                           setEnergyField (indices s ! j) energyField (reflectionsData s),
                         filesWritten := filesWritten s @
                           [(impulseResponsePath (indices s ! j),
                             exportImpulseResponseAsWav (getImpulseResponse E f) 44100)]\<rparr>)))
      else Inl ArrayIndexOutOfBounds)"

fun storeEnergyFields :: "Env \<Rightarrow> BakeArgs \<Rightarrow> nat list \<Rightarrow> BakeState \<Rightarrow> Error + BakeState" where
  "storeEnergyFields E A [] s = Inr s"
| "storeEnergyFields E A (j # js) s =
     (case storeEnergyField E A j s of
        Inl e \<Rightarrow> Inl e
      | Inr s' \<Rightarrow> storeEnergyFields E A js s')"

text \<open>
  Line 251, \<^verbatim>\<open>(i + 1.0f) / probeBatch.numProbes()\<close> for a bake of \<open>n\<close> probes: \<open>i\<close> is
  converted to \<^verbatim>\<open>float\<close> and \<^verbatim>\<open>1.0f\<close> is added, \<open>n\<close> is converted to \<^verbatim>\<open>float\<close>, and the
  sum is divided by it. Each of the four operations rounds to single precision (a target
  that keeps intermediate results in a wider format is not modelled). The line is reached
  inside the loop only, where \<open>n\<close> is positive.
\<close>

definition progressValue :: "nat \<Rightarrow> nat \<Rightarrow> rat" where
  "progressValue i n = round32 (round32 (int_to_float i + 1) / int_to_float n)"

text \<open>
  Lines 247 to 258, for a bake of \<open>n\<close> probes: the state, and whether the loop breaks.
\<close>

definition finishBatch :: "BakeArgs \<Rightarrow> nat \<Rightarrow> nat \<Rightarrow> BakeState \<Rightarrow> BakeState \<times> bool" where
  "finishBatch A n i s =
     (let s1 = s\<lparr>numValidInBatch := 0\<rparr>;
          s2 = (if callback A
                then s1\<lparr>progressReports := progressReports s1 @ [progressValue i n]\<rparr>
                else s1)
      in if sCancel s2 then (s2\<lparr>sCancel := False\<rparr>, True) else (s2, False))"

text \<open>
  Lines 211 to 258: what follows the simulation of a closed batch.
\<close>

definition writeBack :: "Env \<Rightarrow> BakeArgs \<Rightarrow> nat \<Rightarrow> nat \<Rightarrow> BakeState \<Rightarrow> Error + (BakeState \<times> bool)" where
  "writeBack E A n i s =
     (case (if bakeParametric A then storeReverbs E [0..<numValidInBatch s] s else Inr s) of
        Inl e \<Rightarrow> Inl e
      | Inr s3 \<Rightarrow>
          (case (if bakeConvolution A
                 then storeEnergyFields E A [0..<numValidInBatch s3] s3 else Inr s3) of
             Inl e \<Rightarrow> Inl e
           | Inr s4 \<Rightarrow> Inr (finishBatch A n i s4)))"

text \<open>
  One iteration of the loop over the probes \<open>ps\<close> (lines 132 to 259). The iteration reads
  \<open>sCancel\<close> once, at its end, and only if it closes a batch, so the calls of \<^verbatim>\<open>cancel()\<close>
  that take effect before that read are all placed at the head of the iteration.
\<close>

definition loopBody ::
  "Env \<Rightarrow> BakeArgs \<Rightarrow> Probe list \<Rightarrow> nat \<Rightarrow> BakeState \<Rightarrow> Error + (BakeState \<times> bool)" where
  "loopBody E A ps i s =
     (case addProbe E A i (ps ! i) (if cancelRequested E i then cancel s else s) of
        Inl e \<Rightarrow> Inl e
      | Inr s1 \<Rightarrow>
          if batchCloses A (length ps) i s1
          then writeBack E A (length ps) i (simulateBatch E A i s1)
          else Inr (s1, False))"

function bakeLoop :: "Env \<Rightarrow> BakeArgs \<Rightarrow> Probe list \<Rightarrow> nat \<Rightarrow> BakeState \<Rightarrow> Error + BakeState" where
  "bakeLoop E A ps i s =
     (if i < length ps then
        (case loopBody E A ps i s of
           Inl e \<Rightarrow> Inl e
         | Inr (s', stop) \<Rightarrow> if stop then Inr s' else bakeLoop E A ps (Suc i) s')
      else Inr s)"
  by pat_completeness auto
termination
  by (relation "measure (\<lambda>(E, A, ps, i, s). length ps - i)") auto

declare bakeLoop.simps [simp del]

text \<open>Lines 101 to 104: the batch size that the loop uses.\<close>

definition effectiveArgs :: "BakeArgs \<Rightarrow> BakeArgs" where
  "effectiveArgs A =
     (if sceneType A \<noteq> RadeonRays \<and> variation (bakeIdentifier A) \<noteq> StaticListener
      then A\<lparr>bakeBatchSize := 1\<rparr> else A)"

text \<open>
  Lines 106 to 116: the data of the identifier, created if the batch has none
  (\<^verbatim>\<open>hasData\<close> is false), with its flags set.
\<close>

definition prepareData :: "BakeArgs \<Rightarrow> ProbeBatch \<Rightarrow> BakedReflectionsData" where
  "prepareData A pb =
     (let d = (case bakedData pb (bakeIdentifier A) of
                 None \<Rightarrow> newBakedReflectionsData (bakeIdentifier A) (numProbes pb)
                           (bakeConvolution A) (bakeParametric A)
               | Some d \<Rightarrow> d)
      in setHasParametric (bakeParametric A) (setHasConvolution (bakeConvolution A) d))"

text \<open>
  Lines 99 and 118 to 128: the flag is raised; the arrays have \<open>bakeBatchSize\<close> elements
  each, whose initial values the baker never reads. The \<^verbatim>\<open>Array\<close> class is not among the
  sources; a negative size is taken to fail (\<open>BadArraySize\<close> in \<open>bake\<close>).
\<close>

definition initialState :: "BakeArgs \<Rightarrow> World \<Rightarrow> BakeState" where
  "initialState A w =
     (let m = nat (bakeBatchSize A) in
      \<lparr>sCancel = sCancel w, sBakeInProgress = True,
       probeBatch = probeBatch w, simCalls = simCalls w,
       progressReports = progressReports w, filesWritten = filesWritten w,
       reflectionsData = prepareData A (probeBatch w),
       sources = replicate m (Vector3f (Num 0) (Num 0) (Num 0)),
       listeners = replicate m (Vector3f (Num 0) (Num 0) (Num 0)),
       energyFields = replicate m None,
       indices = replicate m 0,
       numValidInBatch = 0\<rparr>)"

text \<open>
  Between the last read of \<open>sCancel\<close> by the loop and line 262: the calls of \<^verbatim>\<open>cancel()\<close>
  that take effect there. Nothing reads the flag again before \<^verbatim>\<open>bake\<close> returns.
\<close>

definition afterLoop :: "Env \<Rightarrow> BakeState \<Rightarrow> BakeState" where
  "afterLoop E s = (if cancelAfterLoop E then cancel s else s)"

text \<open>
  Line 262 and the return: the flag is lowered and the batch holds the data. The assertions
  of lines 95 to 97 are checked, as in a debug build.
\<close>

definition finalWorld :: "BakeArgs \<Rightarrow> BakeState \<Rightarrow> World" where
  "finalWorld A s =
     \<lparr>sCancel = sCancel s, sBakeInProgress = False,
      probeBatch = addData (bakeIdentifier A) (reflectionsData s) (probeBatch s),
      simCalls = simCalls s, progressReports = progressReports s,
      filesWritten = filesWritten s\<rparr>"

definition bake :: "Env \<Rightarrow> BakeArgs \<Rightarrow> World \<Rightarrow> Error + World" where
  "bake E A w =
     (if \<not> (bakeConvolution A \<or> bakeParametric A) then Inl AssertionFailed
      else if type (bakeIdentifier A) \<noteq> Reflections then Inl AssertionFailed
      else if variation (bakeIdentifier A) = Dynamic then Inl AssertionFailed
      else if bakeBatchSize (effectiveArgs A) < 0 then Inl BadArraySize
      else
        (case bakeLoop E (effectiveArgs A) (probes (probeBatch w)) 0
                (initialState (effectiveArgs A) w) of
           Inl e \<Rightarrow> Inl e
         | Inr s \<Rightarrow> Inr (finalWorld A (afterLoop E s))))"

text \<open>The stored Reverb and Energy Field of probe \<open>i\<close> under an identifier, if any.\<close>

definition reverbOf :: "ProbeBatch \<Rightarrow> BakedDataIdentifier \<Rightarrow> nat \<Rightarrow> ReverbDescriptor option" where
  "reverbOf pb ident i = (case bakedData pb ident of None \<Rightarrow> None | Some d \<Rightarrow> storedReverb d i)"

definition energyFieldOf :: "ProbeBatch \<Rightarrow> BakedDataIdentifier \<Rightarrow> nat \<Rightarrow> EnergyField option" where
  "energyFieldOf pb ident i =
     (case bakedData pb ident of None \<Rightarrow> None | Some d \<Rightarrow> storedEnergyField d i)"

subsection \<open>Invariants of the probe loop\<close>

text \<open>
  The predicates below are used in the proofs only. \<open>arraysOk\<close> holds of the arrays after
  line 166 of iteration \<open>i - 1\<close>: every array has \<open>bakeBatchSize\<close> elements and the first
  \<open>numValidInBatch\<close> slots hold valid probes below \<open>i\<close>, in increasing order, each with a
  field. \<open>headOk\<close> holds where the loop tests \<open>i\<close>. \<open>callOk\<close> and \<open>callsOk\<close> describe the
  simulator calls made since the loop started, \<open>dataOk\<close> what these calls have stored, and
  \<open>loopInv\<close> puts them together with the progress values and the files.
\<close>

definition arraysOk :: "Env \<Rightarrow> BakeArgs \<Rightarrow> Probe list \<Rightarrow> nat \<Rightarrow> BakeState \<Rightarrow> bool" where
  "arraysOk E A ps i s \<longleftrightarrow>
     length (sources s) = nat (bakeBatchSize A) \<and> length (listeners s) = nat (bakeBatchSize A) \<and>
     length (energyFields s) = nat (bakeBatchSize A) \<and> length (indices s) = nat (bakeBatchSize A) \<and>
     numValidInBatch s \<le> nat (bakeBatchSize A) \<and>
     (\<forall>j<numValidInBatch s. indices s ! j < i \<and> indices s ! j < length ps \<and>
          probeValid E (bakeIdentifier A) (ps ! (indices s ! j)) \<and> energyFields s ! j \<noteq> None) \<and>
     (\<forall>j<numValidInBatch s. \<forall>j'<j. indices s ! j' < indices s ! j) \<and>
     sBakeInProgress s"

definition headOk :: "Env \<Rightarrow> BakeArgs \<Rightarrow> Probe list \<Rightarrow> nat \<Rightarrow> BakeState \<Rightarrow> bool" where
  "headOk E A ps i s \<longleftrightarrow>
     arraysOk E A ps i s \<and> (numValidInBatch s = 0 \<or> numValidInBatch s < nat (bakeBatchSize A))"

definition callOk :: "Env \<Rightarrow> BakeArgs \<Rightarrow> Probe list \<Rightarrow> SimCall \<Rightarrow> bool" where
  "callOk E A ps c \<longleftrightarrow>
     (numSources c, numListeners c) =
        endpointCounts (sceneType A) (variation (bakeIdentifier A)) (length (batchIndices c)) \<and>
     length (batchIndices c) \<le> nat (bakeBatchSize A) \<and>
     length (outFields c) = length (batchIndices c) \<and>
     (int (length (batchIndices c)) = bakeBatchSize A \<or> Suc (closedAt c) = length ps) \<and>
     closedAt c < length ps \<and>
     (\<forall>x\<in>set (batchIndices c). x \<le> closedAt c \<and> probeValid E (bakeIdentifier A) (ps ! x)) \<and>
     (probeValid E (bakeIdentifier A) (ps ! closedAt c) \<longrightarrow> closedAt c \<in> set (batchIndices c))"

definition callsOk ::
  "Env \<Rightarrow> BakeArgs \<Rightarrow> Probe list \<Rightarrow> SimCall list \<Rightarrow> nat \<Rightarrow> BakeState \<Rightarrow> bool" where
  "callsOk E A ps cs i s \<longleftrightarrow>
     (\<forall>c\<in>set cs. callOk E A ps c \<and> closedAt c < i \<and>
          (\<forall>j<numValidInBatch s. closedAt c < indices s ! j)) \<and>
     sorted_wrt (\<lambda>c c'. closedAt c < closedAt c' \<and> (\<forall>x\<in>set (batchIndices c'). closedAt c < x)) cs"

definition dataOk ::
  "Env \<Rightarrow> BakeArgs \<Rightarrow> BakedReflectionsData \<Rightarrow> SimCall list \<Rightarrow> BakedReflectionsData \<Rightarrow> bool" where
  "dataOk E A d0 cs d \<longleftrightarrow>
     dataIdentifier d = dataIdentifier d0 \<and> dataNumProbes d = dataNumProbes d0 \<and>
     hasConvolution d = hasConvolution d0 \<and> hasParametric d = hasParametric d0 \<and>
     (\<forall>x. (\<forall>c\<in>set cs. x \<notin> set (batchIndices c)) \<longrightarrow>
          storedReverb d x = storedReverb d0 x \<and> storedEnergyField d x = storedEnergyField d0 x) \<and>
     (\<not> bakeParametric A \<longrightarrow> storedReverb d = storedReverb d0) \<and>
     (\<not> bakeConvolution A \<longrightarrow> storedEnergyField d = storedEnergyField d0) \<and>
     (\<forall>c\<in>set cs. \<forall>j<length (batchIndices c). \<exists>e. outFields c ! j = Some e \<and>
          (bakeParametric A \<longrightarrow> storedReverb d (batchIndices c ! j) = Some (estimate E e)) \<and>
          (bakeConvolution A \<longrightarrow> \<not> float_eq (simDuration A) (bakeDuration A) \<and>
             storedEnergyField d (batchIndices c ! j) =
               Some (copyFrom E (createEnergyField (bakeDuration A) (order A)) e)))"

definition callFiles :: "Env \<Rightarrow> SimCall \<Rightarrow> (string \<times> WavItem list) list" where
  "callFiles E c =
     map (\<lambda>j. (impulseResponsePath (batchIndices c ! j),
               exportImpulseResponseAsWav (getImpulseResponse E (the (outFields c ! j))) 44100))
         [0..<length (batchIndices c)]"

definition progressOf :: "nat \<Rightarrow> SimCall \<Rightarrow> rat" where
  "progressOf n c = progressValue (closedAt c) n"

definition loopInv ::
  "Env \<Rightarrow> BakeArgs \<Rightarrow> Probe list \<Rightarrow> BakeState \<Rightarrow> SimCall list \<Rightarrow> nat \<Rightarrow> BakeState \<Rightarrow> bool" where
  "loopInv E A ps s0 cs i s \<longleftrightarrow>
     headOk E A ps i s \<and> callsOk E A ps cs i s \<and>
     dataOk E A (reflectionsData s0) cs (reflectionsData s) \<and>
     simCalls s = simCalls s0 @ cs \<and> probeBatch s = probeBatch s0 \<and>
     progressReports s =
       progressReports s0 @ (if callback A then map (progressOf (length ps)) cs else []) \<and>
     filesWritten s =
       filesWritten s0 @ (if bakeConvolution A then concat (map (callFiles E) cs) else [])"

text \<open>The simulator calls and the progress values of one bake, and the calls' batch sizes.\<close>

definition newCalls :: "World \<Rightarrow> World \<Rightarrow> SimCall list" where
  "newCalls w r = drop (length (simCalls w)) (simCalls r)"

definition newProgress :: "World \<Rightarrow> World \<Rightarrow> rat list" where
  "newProgress w r = drop (length (progressReports w)) (progressReports r)"

definition newFiles :: "World \<Rightarrow> World \<Rightarrow> (string \<times> WavItem list) list" where
  "newFiles w r = drop (length (filesWritten w)) (filesWritten r)"

subsection \<open>Example bakes\<close>

text \<open>
  Concrete collaborators and inputs on which the theorems below are instantiated: a region
  contains exactly its centre; the simulator fills field \<open>j\<close> of its \<open>n\<close>-th call with the
  two values \<open>n\<close> and \<open>j\<close>; the estimator copies them; nobody calls \<^verbatim>\<open>cancel()\<close>.
  \<open>exEnvCancel k\<close> is the same with one call of \<^verbatim>\<open>cancel()\<close> during iteration \<open>k\<close>,
  \<open>exEnvLate\<close> with one call after the loop has read the flag for the last time.
\<close>

definition exEnv :: Env where
  "exEnv =
     \<lparr>contains = (\<lambda>s v. v = center s),
      simulate = (\<lambda>n ns src nl lst j. [Num (of_nat n), Num (of_nat j)]),
      estimate = (\<lambda>f. ReverbTimes (efData f)),
      copyData = (\<lambda>dst src. take 1 (efData src)),
      getImpulseResponse = efData,
      cancelRequested = (\<lambda>i. False),
      cancelAfterLoop = False\<rparr>"

definition exEnvCancel :: "nat \<Rightarrow> Env" where
  "exEnvCancel k = exEnv\<lparr>cancelRequested := (\<lambda>i. i = k)\<rparr>"

definition exEnvLate :: Env where
  "exEnvLate = exEnv\<lparr>cancelAfterLoop := True\<rparr>"

definition exSphere :: "rat \<Rightarrow> Sphere" where
  "exSphere x = \<lparr>center = Vector3f (Num x) (Num 0) (Num 0), radius = Num 1\<rparr>"

definition exProbe :: "rat \<Rightarrow> Probe" where
  "exProbe x = \<lparr>influence = exSphere x\<rparr>"

definition exIdentifier :: "BakedDataVariation \<Rightarrow> BakedDataIdentifier" where
  "exIdentifier v = \<lparr>type = Reflections, variation = v, endpointInfluence = exSphere 0\<rparr>"

definition exWorld :: "Probe list \<Rightarrow> World" where
  "exWorld ps =
     \<lparr>sCancel = False, sBakeInProgress = False,
      probeBatch = \<lparr>probes = ps, bakedData = (\<lambda>_. None)\<rparr>,
      simCalls = [], progressReports = [], filesWritten = []\<rparr>"

definition exArgs ::
  "BakedDataVariation \<Rightarrow> SceneType \<Rightarrow> int \<Rightarrow> bool \<Rightarrow> bool \<Rightarrow> rat \<Rightarrow> rat \<Rightarrow> BakeArgs" where
  "exArgs v st b conv par sd bd =
     \<lparr>bakeIdentifier = exIdentifier v, bakeConvolution = conv, bakeParametric = par,
      simDuration = Num sd, bakeDuration = Num bd, order = 1, bakeBatchSize = b,
      sceneType = st, callback = True\<rparr>"

text \<open>
  What a bake returned: its error, the cancel flag, the sizes of its simulator calls (with
  those of the bakes before it), its flags, its stored
  reverbs, its progress values and its batches with the index at which each closed; and a
  bake of the batch that an earlier bake returned.
\<close>

definition errorOf :: "Error + World \<Rightarrow> Error option" where
  "errorOf r = (case r of Inl e \<Rightarrow> Some e | Inr w \<Rightarrow> None)"

definition cancelFlagOf :: "Error + World \<Rightarrow> bool option" where
  "cancelFlagOf r = (case r of Inl e \<Rightarrow> None | Inr w \<Rightarrow> Some (sCancel w))"

definition callSizesOf :: "Error + World \<Rightarrow> nat list" where
  "callSizesOf r = (case r of Inl e \<Rightarrow> [] | Inr w \<Rightarrow> map (\<lambda>c. length (batchIndices c)) (simCalls w))"


definition reverbsOf :: "BakedDataIdentifier \<Rightarrow> nat \<Rightarrow> Error + World \<Rightarrow> ReverbDescriptor option list" where
  "reverbsOf ident n r =
     (case r of Inl e \<Rightarrow> [] | Inr w \<Rightarrow> map (reverbOf (probeBatch w) ident) [0..<n])"

definition thenBake :: "Env \<Rightarrow> BakeArgs \<Rightarrow> Error + World \<Rightarrow> Error + World" where
  "thenBake E A r = (case r of Inl e \<Rightarrow> Inl e | Inr w \<Rightarrow> bake E A w)"

definition progressFrom :: "World \<Rightarrow> Error + World \<Rightarrow> rat list" where
  "progressFrom w r = (case r of Inl e \<Rightarrow> [] | Inr w' \<Rightarrow> newProgress w w')"

definition callsFrom :: "World \<Rightarrow> Error + World \<Rightarrow> (nat list \<times> nat) list" where
  "callsFrom w r =
     (case r of Inl e \<Rightarrow> []
      | Inr w' \<Rightarrow> map (\<lambda>c. (batchIndices c, closedAt c)) (newCalls w w'))"

section \<open>Properties\<close>

subsection \<open>Single-precision rounding\<close>

lemma roundHalfEven_of_int [simp]: "roundHalfEven (of_int k) = k"
  by (simp add: roundHalfEven_def)

lemma roundHalfEven_floor: "\<lfloor>x\<rfloor> \<le> roundHalfEven x" "roundHalfEven x \<le> \<lfloor>x\<rfloor> + 1"
  by (simp_all add: roundHalfEven_def Let_def)

lemma roundHalfEven_mono:
  assumes "x \<le> y"
  shows "roundHalfEven x \<le> roundHalfEven y"
proof (cases "\<lfloor>x\<rfloor> < \<lfloor>y\<rfloor>")
  case True
  with roundHalfEven_floor(2) [of x] roundHalfEven_floor(1) [of y] show ?thesis by linarith
next
  case False
  with assms have "\<lfloor>x\<rfloor> = \<lfloor>y\<rfloor>" using floor_mono [of x y] by simp
  with assms show ?thesis by (auto simp: roundHalfEven_def Let_def)
qed

lemma bitLength_pos: "0 < k \<Longrightarrow> 0 < bitLength k"
  by (subst bitLength.simps) simp

lemma bitLength_bounds: "0 < k \<Longrightarrow> 2 ^ (bitLength k - 1) \<le> k \<and> k < 2 ^ bitLength k"
proof (induction k rule: bitLength.induct)
  case (1 k)
  have b: "bitLength k = Suc (bitLength (k div 2))" using 1(2) by (subst bitLength.simps) simp
  show ?case
  proof (cases "k div 2 \<le> 0")
    case True
    with 1(2) have "k = 1" by linarith
    then show ?thesis by (simp add: bitLength.simps)
  next
    case False
    with 1 have ih: "2 ^ (bitLength (k div 2) - 1) \<le> k div 2 \<and> k div 2 < 2 ^ bitLength (k div 2)"
      by simp
    from False have pos: "0 < bitLength (k div 2)" by (intro bitLength_pos) simp
    then have "(2::int) ^ (bitLength k - 1) = 2 * 2 ^ (bitLength (k div 2) - 1)"
      by (cases "bitLength (k div 2)") (simp_all add: b)
    with ih show ?thesis by (simp add: b) linarith
  qed
qed

lemma powi_pred: "0 < b \<Longrightarrow> (2::rat) powi (int b - 1) = 2 ^ (b - 1)"
proof -
  assume "0 < b"
  then have "int b - 1 = int (b - 1)" by simp
  then show ?thesis by (simp only: power_int_of_nat)
qed

lemma expo_bounds_ge1:
  assumes "1 \<le> x"
  shows "2 powi expo x \<le> x" and "x < 2 powi (expo x + 1)"
proof -
  let ?m = "\<lfloor>x\<rfloor>"
  let ?b = "bitLength ?m"
  from assms have m: "0 < ?m" by simp
  note bl = bitLength_bounds [OF m]
  from assms have e: "expo x = int ?b - 1" by (simp add: expo_def)
  from bl have "(2::rat) ^ (?b - 1) \<le> of_int ?m"
    by (metis of_int_le_iff of_int_numeral of_int_power)
  also have "\<dots> \<le> x" by simp
  finally show "2 powi expo x \<le> x"
    by (simp only: e powi_pred [OF bitLength_pos [OF m]])
  from bl have "?m + 1 \<le> 2 ^ ?b" by linarith
  then have "(of_int (?m + 1) :: rat) \<le> 2 ^ ?b"
    by (metis of_int_le_iff of_int_numeral of_int_power)
  moreover have "x < of_int (?m + 1)"
    by simp linarith
  ultimately have "x < 2 ^ ?b" by (rule less_le_trans [rotated])
  then show "x < 2 powi (expo x + 1)" by (simp add: e)
qed

lemma expo_bounds_lt1:
  assumes "0 < x" and "x < 1"
  shows "2 powi expo x \<le> x" and "x < 2 powi (expo x + 1)"
proof -
  let ?m = "\<lceil>1 / x\<rceil>"
  let ?c = "bitLength (?m - 1)"
  from assms have y: "1 < 1 / x" by simp
  then have "1 < ?m" by (simp add: less_ceiling_iff)
  then have m: "0 < ?m - 1" by simp
  note bl = bitLength_bounds [OF m]
  from assms have e: "expo x = - int ?c" by (simp add: expo_def)
  from bl have "?m \<le> 2 ^ ?c" by linarith
  then have "(of_int ?m :: rat) \<le> 2 ^ ?c"
    by (metis of_int_le_iff of_int_numeral of_int_power)
  moreover have "1 / x \<le> of_int ?m"
    by (rule le_of_int_ceiling)
  ultimately have "1 / x \<le> 2 ^ ?c" by (rule order_trans [rotated])
  with assms(1) have "1 / 2 ^ ?c \<le> x"
    by (simp add: field_simps)
  then show "2 powi expo x \<le> x"
    by (simp add: e power_int_minus_divide)
  from bl have "(2::rat) ^ (?c - 1) \<le> of_int (?m - 1)"
    by (metis of_int_le_iff of_int_numeral of_int_power)
  also have "(of_int (?m - 1) :: rat) < 1 / x"
    by simp linarith
  finally have "2 ^ (?c - 1) < 1 / x" .
  with assms(1) have "x < 1 / 2 ^ (?c - 1)" by (simp add: field_simps)
  moreover have "- int ?c + 1 = - int (?c - 1)" using bitLength_pos [OF m] by simp
  ultimately show "x < 2 powi (expo x + 1)"
    by (simp only: e power_int_minus_divide power_int_of_nat)
qed

lemma expo_bounds:
  assumes "0 < x"
  shows "2 powi expo x \<le> x" and "x < 2 powi (expo x + 1)"
  using assms expo_bounds_ge1 [of x] expo_bounds_lt1 [of x] by (cases "1 \<le> x"; simp)+

lemma expo_mono:
  assumes "0 < x" and "x \<le> y"
  shows "expo x \<le> expo y"
proof (rule ccontr)
  assume "\<not> expo x \<le> expo y"
  then have "expo y + 1 \<le> expo x" by simp
  then have "(2::rat) powi (expo y + 1) \<le> 2 powi expo x"
    by (intro power_int_increasing) simp_all
  with expo_bounds(1) [OF assms(1)] expo_bounds(2) [of y] assms show False by simp
qed

lemma round32_pos:
  "0 < x \<Longrightarrow> round32 x = of_int (roundHalfEven (x / 2 powi (expo x - 23))) * 2 powi (expo x - 23)"
  by (simp add: round32_def Let_def)

lemma scaled_bounds:
  assumes "0 < x"
  shows "2 ^ 23 \<le> x / 2 powi (expo x - 23)" and "x / 2 powi (expo x - 23) < 2 ^ 24"
proof -
  let ?u = "(2::rat) powi (expo x - 23)"
  have u: "0 < ?u" by simp
  have lo: "2 ^ 23 * ?u = 2 powi expo x"
    by (simp add: power_int_diff)
  have hi: "2 ^ 24 * ?u = 2 powi (expo x + 1)"
    by (simp add: power_int_diff power_int_add)
  from expo_bounds(1) [OF assms] lo have "2 ^ 23 * ?u \<le> x" by simp
  with u show "2 ^ 23 \<le> x / ?u" by (simp add: pos_le_divide_eq)
  from expo_bounds(2) [OF assms] hi have "x < 2 ^ 24 * ?u" by simp
  with u show "x / ?u < 2 ^ 24" by (simp add: pos_divide_less_eq)
qed

lemma roundHalfEven_bounds:
  assumes "2 ^ 23 \<le> y" and "y < 2 ^ 24"
  shows "2 ^ 23 \<le> roundHalfEven y" and "roundHalfEven y \<le> 2 ^ 24"
proof -
  from assms(1) have "roundHalfEven (of_int (2 ^ 23)) \<le> roundHalfEven y" by (intro roundHalfEven_mono) simp
  then show "2 ^ 23 \<le> roundHalfEven y" by (simp only: roundHalfEven_of_int)
  from assms(2) have "roundHalfEven y \<le> roundHalfEven (of_int (2 ^ 24))" by (intro roundHalfEven_mono) simp
  then show "roundHalfEven y \<le> 2 ^ 24" by (simp only: roundHalfEven_of_int)
qed

lemma round32_bounds:
  assumes "0 < x"
  shows "2 powi expo x \<le> round32 x" and "round32 x \<le> 2 powi (expo x + 1)"
proof -
  let ?u = "(2::rat) powi (expo x - 23)"
  have u: "0 < ?u" by simp
  have lo: "2 ^ 23 * ?u = 2 powi expo x"
    by (simp add: power_int_diff)
  have hi: "2 ^ 24 * ?u = 2 powi (expo x + 1)"
    by (simp add: power_int_diff power_int_add)
  note b = roundHalfEven_bounds [OF scaled_bounds [OF assms]]
  from b(1) have "(2::rat) ^ 23 \<le> of_int (roundHalfEven (x / ?u))"
    by (metis of_int_le_iff of_int_numeral of_int_power)
  with u have "2 ^ 23 * ?u \<le> of_int (roundHalfEven (x / ?u)) * ?u" by (simp only: mult_le_cancel_right_pos)
  then show "2 powi expo x \<le> round32 x" by (simp only: lo round32_pos [OF assms])
  from b(2) have "of_int (roundHalfEven (x / ?u)) \<le> (2::rat) ^ 24"
    by (metis of_int_le_iff of_int_numeral of_int_power)
  with u have "of_int (roundHalfEven (x / ?u)) * ?u \<le> 2 ^ 24 * ?u" by (simp only: mult_le_cancel_right_pos)
  then show "round32 x \<le> 2 powi (expo x + 1)" by (simp only: hi round32_pos [OF assms])
qed

lemma round32_nonneg: "0 \<le> x \<Longrightarrow> 0 \<le> round32 x"
proof (cases "x = 0")
  case True
  then show ?thesis by (simp add: round32_def)
next
  case False
  assume "0 \<le> x"
  with False have x: "0 < x" by simp
  have "0 \<le> (2::rat) powi expo x" by simp
  also note round32_bounds(1) [OF x]
  finally show ?thesis .
qed

lemma round32_pos_pos: "0 < x \<Longrightarrow> 0 < round32 x"
proof -
  assume x: "0 < x"
  have "0 < (2::rat) powi expo x" by simp
  also note round32_bounds(1) [OF x]
  finally show ?thesis .
qed

lemma round32_mono:
  assumes "0 \<le> x" and "x \<le> y"
  shows "round32 x \<le> round32 y"
proof (cases "x = 0")
  case True
  with assms round32_nonneg [of y] show ?thesis by (simp add: round32_def)
next
  case False
  with assms have x: "0 < x" and y: "0 < y" by simp_all
  from expo_mono [OF x assms(2)] have le: "expo x \<le> expo y" .
  show ?thesis
  proof (cases "expo x = expo y")
    case True
    let ?u = "(2::rat) powi (expo y - 23)"
    have u: "0 < ?u" by simp
    from assms(2) u have "x / ?u \<le> y / ?u" by (simp add: divide_right_mono)
    then have "roundHalfEven (x / ?u) \<le> roundHalfEven (y / ?u)" by (rule roundHalfEven_mono)
    then have "(of_int (roundHalfEven (x / ?u)) :: rat) \<le> of_int (roundHalfEven (y / ?u))" by simp
    with u have "of_int (roundHalfEven (x / ?u)) * ?u \<le> of_int (roundHalfEven (y / ?u)) * ?u"
      by (simp only: mult_le_cancel_right_pos)
    then show ?thesis by (simp only: round32_pos [OF x] round32_pos [OF y] True)
  next
    case False
    with le have "expo x + 1 \<le> expo y" by simp
    then have "(2::rat) powi (expo x + 1) \<le> 2 powi expo y"
      by (intro power_int_increasing) simp_all
    with round32_bounds(2) [OF x] round32_bounds(1) [OF y] show ?thesis by simp
  qed
qed

lemma round32_exact:
  assumes "0 < x" and "x / 2 powi (expo x - 23) = of_int k"
  shows "round32 x = x"
proof -
  define u :: rat where "u = 2 powi (expo x - 23)"
  have u: "u \<noteq> 0" by (simp add: u_def)
  from assms(2) have k: "x / u = of_int k" by (simp only: u_def)
  have "round32 x = of_int (roundHalfEven (x / u)) * u" by (simp only: round32_pos [OF assms(1)] u_def)
  also have "\<dots> = x / u * u" by (simp only: k roundHalfEven_of_int)
  also from u have "\<dots> = x" by simp
  finally show ?thesis .
qed

lemma round32_of_nat:
  assumes "n \<le> 2 ^ 24"
  shows "round32 (of_nat n) = of_nat n"
proof (cases "n = 0")
  case True
  then show ?thesis by (simp add: round32_def)
next
  case False
  let ?x = "of_nat n :: rat"
  from False have x: "0 < ?x" by simp
  from assms have n: "?x \<le> 2 ^ 24"
    by (metis of_nat_le_iff of_nat_numeral of_nat_power)
  have e: "expo ?x \<le> 24"
  proof (rule ccontr)
    assume "\<not> expo ?x \<le> 24"
    then have "25 \<le> expo ?x" by simp
    then have "(2::rat) powi 25 \<le> 2 powi expo ?x" by (intro power_int_increasing) simp_all
    with expo_bounds(1) [OF x] n show False by simp
  qed
  show ?thesis
  proof (cases "expo ?x = 24")
    case True
    define u :: rat where "u = 2 powi (expo ?x - 23)"
    from True have u: "u = 2" by (simp add: u_def)
    from True expo_bounds(1) [OF x] n have "?x = 2 ^ 24" by simp
    then have "?x / u = of_int (2 ^ 23)" by (simp only: u) simp
    then have "?x / 2 powi (expo ?x - 23) = of_int (2 ^ 23)" by (simp only: u_def)
    with x show ?thesis by (rule round32_exact)
  next
    case False
    with e have "0 \<le> 23 - expo ?x" by simp
    then have "(2::rat) powi (23 - expo ?x) = 2 ^ nat (23 - expo ?x)"
      by (rule power_int_nonneg_exp)
    moreover have "(2::rat) powi (expo ?x - 23) = 1 / 2 powi (23 - expo ?x)"
      by (simp add: power_int_diff)
    ultimately have "?x / 2 powi (expo ?x - 23) = of_int (int n * 2 ^ nat (23 - expo ?x))"
      by simp
    with x show ?thesis by (rule round32_exact)
  qed
qed

lemma int_to_float_exact: "n \<le> 2 ^ 24 \<Longrightarrow> int_to_float n = of_nat n"
  by (simp only: int_to_float_def round32_of_nat)

lemma progressValue_mono:
  assumes "0 < n" and "i \<le> j"
  shows "progressValue i n \<le> progressValue j n"
proof -
  have d: "0 < int_to_float n"
    unfolding int_to_float_def using assms(1) by (intro round32_pos_pos) simp
  have nn: "0 \<le> int_to_float k" for k
    unfolding int_to_float_def by (intro round32_nonneg) simp
  from assms(2) have "int_to_float i \<le> int_to_float j"
    unfolding int_to_float_def by (intro round32_mono) simp_all
  then have "round32 (int_to_float i + 1) \<le> round32 (int_to_float j + 1)"
    using nn [of i] by (intro round32_mono) simp_all
  with d have "round32 (int_to_float i + 1) / int_to_float n
                 \<le> round32 (int_to_float j + 1) / int_to_float n"
    by (simp add: divide_right_mono)
  moreover from nn [of i] have "0 \<le> round32 (int_to_float i + 1)"
    by (intro round32_nonneg) simp
  with d have "0 \<le> round32 (int_to_float i + 1) / int_to_float n" by simp
  ultimately show ?thesis unfolding progressValue_def by (intro round32_mono)
qed

lemma progressValue_exact_operands:
  assumes "n \<le> 2 ^ 24" and "i < n"
  shows "progressValue i n = round32 (of_nat (Suc i) / of_nat n)"
proof -
  from assms have i: "i \<le> 2 ^ 24" and si: "Suc i \<le> 2 ^ 24" by simp_all
  have "int_to_float i + 1 = of_nat (Suc i)" by (simp add: int_to_float_exact [OF i])
  then have "round32 (int_to_float i + 1) = of_nat (Suc i)"
    by (simp only: round32_of_nat [OF si])
  then show ?thesis by (simp only: progressValue_def int_to_float_exact [OF assms(1)])
qed

lemma progressValue_last:
  assumes "0 < n" and "n \<le> 2 ^ 24"
  shows "progressValue (n - 1) n = 1"
proof -
  from assms(1) have "progressValue (n - 1) n = round32 (of_nat (Suc (n - 1)) / of_nat n)"
    by (intro progressValue_exact_operands [OF assms(2)]) simp
  also from assms(1) have "of_nat (Suc (n - 1)) / of_nat n = (of_nat 1 :: rat)" by simp
  also have "round32 (of_nat 1) = of_nat 1" by (rule round32_of_nat) simp
  finally show ?thesis by simp
qed

lemma roundHalfEven_error: "\<bar>of_int (roundHalfEven y) - y\<bar> \<le> 1 / 2"
proof -
  have "of_int \<lfloor>y\<rfloor> \<le> y" and "y < of_int \<lfloor>y\<rfloor> + 1" by linarith+
  then show ?thesis by (auto simp: roundHalfEven_def Let_def abs_le_iff)
qed

lemma round32_error:
  assumes "0 < x"
  shows "\<bar>round32 x - x\<bar> \<le> 2 powi (expo x - 24)"
proof -
  define u :: rat where "u = 2 powi (expo x - 23)"
  have u: "0 < u" by (simp add: u_def)
  have half: "u / 2 = 2 powi (expo x - 24)"
    by (simp add: u_def power_int_diff)
  have "round32 x - x = (of_int (roundHalfEven (x / u)) - x / u) * u"
    using u by (simp add: round32_pos [OF assms] u_def algebra_simps)
  then have "\<bar>round32 x - x\<bar> = \<bar>of_int (roundHalfEven (x / u)) - x / u\<bar> * u"
    using u by (simp add: abs_mult)
  also from roundHalfEven_error [of "x / u"] u have "\<dots> \<le> 1 / 2 * u"
    by (intro mult_right_mono) simp_all
  finally show ?thesis by (simp add: half [symmetric])
qed

lemma round32_examples:
  "round32 (1 / 10) = 13421773 / 134217728"
  "round32 16777217 = 16777216"
  "round32 16777219 = 16777220"
  "round32 (2 / 3) = 11184811 / 16777216"
  by code_simp+

subsection \<open>The steps of one iteration\<close>

lemma addProbe_Inr:
  assumes "addProbe E A i p s = Inr s1"
  obtains (invalid) "\<not> probeValid E (bakeIdentifier A) p" and "s1 = s"
  | (valid) src lst where "selectEndpoints E (bakeIdentifier A) p = Some (src, lst)"
      and "numValidInBatch s < length (sources s)" and "numValidInBatch s < length (listeners s)"
      and "numValidInBatch s < length (energyFields s)" and "numValidInBatch s < length (indices s)"
      and "s1 = s\<lparr>sources := (sources s)[numValidInBatch s := src],
                   listeners := (listeners s)[numValidInBatch s := lst],
                   energyFields := (energyFields s)
                      [numValidInBatch s := Some (createEnergyField (simDuration A) (order A))],
                   indices := (indices s)[numValidInBatch s := i],
                   numValidInBatch := Suc (numValidInBatch s)\<rparr>"
proof (cases "selectEndpoints E (bakeIdentifier A) p")
  case None
  with assms invalid show ?thesis
    by (simp add: addProbe_def probeValid_def)
next
  case (Some sl)
  obtain src lst where sl: "sl = (src, lst)" by (cases sl)
  from assms Some sl valid [of src lst] show ?thesis
    by (simp add: addProbe_def Let_def split: if_splits)
qed

lemma storeReverbs_shape:
  "storeReverbs E js s = Inr s' \<Longrightarrow>
     s' = s\<lparr>reflectionsData :=
             (reflectionsData s)\<lparr>storedReverb := storedReverb (reflectionsData s')\<rparr>\<rparr>"
proof (induction js arbitrary: s)
  case Nil
  then show ?case by simp
next
  case (Cons j js)
  then show ?case
    by (auto simp: setReverb_def split: if_splits option.splits dest!: Cons.IH)
qed

lemma storeReverbs_frame:
  "storeReverbs E js s = Inr s' \<Longrightarrow> x \<notin> (\<lambda>j. indices s ! j) ` set js \<Longrightarrow>
     storedReverb (reflectionsData s') x = storedReverb (reflectionsData s) x"
proof (induction js arbitrary: s)
  case Nil
  then show ?case by simp
next
  case (Cons j js)
  then show ?case
    by (auto simp: setReverb_def split: if_splits option.splits dest!: Cons.IH)
qed

lemma storeEnergyField_Inr:
  assumes "storeEnergyField E A j s = Inr s'"
  shows "\<not> float_eq (simDuration A) (bakeDuration A) \<and> j < length (energyFields s) \<and>
         j < length (indices s) \<and>
         (\<exists>e. energyFields s ! j = Some e \<and>
              s' = s\<lparr>reflectionsData :=
                        setEnergyField (indices s ! j)
                          (Some (copyFrom E (createEnergyField (bakeDuration A) (order A)) e))
                          (reflectionsData s),
                      filesWritten := filesWritten s @
                        [(impulseResponsePath (indices s ! j),
                          exportImpulseResponseAsWav (getImpulseResponse E e) 44100)]\<rparr>)"
  using assms
  by (auto simp: storeEnergyField_def split: if_splits option.splits sum.splits)

lemma storeReverbs_value:
  "storeReverbs E js s = Inr s' \<Longrightarrow> distinct (map ((!) (indices s)) js) \<Longrightarrow> j \<in> set js \<Longrightarrow>
     \<exists>e. energyFields s ! j = Some e \<and>
         storedReverb (reflectionsData s') (indices s ! j) = Some (estimate E e)"
proof (induction js arbitrary: s)
  case Nil
  then show ?case by simp
next
  case (Cons j0 js)
  from Cons.prems(1) obtain e0 where e0: "energyFields s ! j0 = Some e0"
    and rest: "storeReverbs E js
        (s\<lparr>reflectionsData := setReverb (indices s ! j0) (estimate E e0) (reflectionsData s)\<rparr>) = Inr s'"
    by (auto split: if_splits option.splits)
  let ?m = "s\<lparr>reflectionsData := setReverb (indices s ! j0) (estimate E e0) (reflectionsData s)\<rparr>"
  show ?case
  proof (cases "j \<in> set js")
    case True
    from Cons.IH [OF rest _ True] Cons.prems(2) show ?thesis by simp
  next
    case False
    with Cons.prems(3) have j: "j = j0" by simp
    from Cons.prems(2) have "indices s ! j0 \<notin> (!) (indices ?m) ` set js" by auto
    from storeReverbs_frame [OF rest this] e0 j show ?thesis
      by (simp add: setReverb_def)
  qed
qed

lemma storeEnergyFields_shape:
  "storeEnergyFields E A js s = Inr s' \<Longrightarrow>
     s' = s\<lparr>reflectionsData :=
             (reflectionsData s)\<lparr>storedEnergyField := storedEnergyField (reflectionsData s')\<rparr>,
           filesWritten := filesWritten s @
             map (\<lambda>j. (impulseResponsePath (indices s ! j),
                       exportImpulseResponseAsWav
                         (getImpulseResponse E (the (energyFields s ! j))) 44100)) js\<rparr>"
proof (induction js arbitrary: s)
  case Nil
  then show ?case by simp
next
  case (Cons j js)
  from Cons.prems obtain m where m: "storeEnergyField E A j s = Inr m"
    and rest: "storeEnergyFields E A js m = Inr s'"
    by (auto split: sum.splits)
  from storeEnergyField_Inr [OF m] Cons.IH [OF rest] show ?case
    by (auto simp: setEnergyField_def)
qed

lemma storeEnergyFields_frame:
  "storeEnergyFields E A js s = Inr s' \<Longrightarrow> x \<notin> (!) (indices s) ` set js \<Longrightarrow>
     storedEnergyField (reflectionsData s') x = storedEnergyField (reflectionsData s) x"
proof (induction js arbitrary: s)
  case Nil
  then show ?case by simp
next
  case (Cons j js)
  from Cons.prems(1) obtain m where m: "storeEnergyField E A j s = Inr m"
    and rest: "storeEnergyFields E A js m = Inr s'"
    by (auto split: sum.splits)
  from storeEnergyField_Inr [OF m] Cons.IH [OF rest] Cons.prems(2) show ?case
    by (auto simp: setEnergyField_def)
qed

lemma storeEnergyFields_differ:
  "storeEnergyFields E A js s = Inr s' \<Longrightarrow> js \<noteq> [] \<Longrightarrow>
     \<not> float_eq (simDuration A) (bakeDuration A)"
  by (cases js) (auto split: sum.splits dest: storeEnergyField_Inr)

lemma storeEnergyFields_value:
  "storeEnergyFields E A js s = Inr s' \<Longrightarrow> distinct (map ((!) (indices s)) js) \<Longrightarrow> j \<in> set js \<Longrightarrow>
     \<exists>e. energyFields s ! j = Some e \<and>
         storedEnergyField (reflectionsData s') (indices s ! j) =
           Some (copyFrom E (createEnergyField (bakeDuration A) (order A)) e)"
proof (induction js arbitrary: s)
  case Nil
  then show ?case by simp
next
  case (Cons j0 js)
  from Cons.prems(1) obtain m where m: "storeEnergyField E A j0 s = Inr m"
    and rest: "storeEnergyFields E A js m = Inr s'"
    by (auto split: sum.splits)
  from storeEnergyField_Inr [OF m] obtain e0 where e0: "energyFields s ! j0 = Some e0"
    and m_eq: "m = s\<lparr>reflectionsData :=
                        setEnergyField (indices s ! j0)
                          (Some (copyFrom E (createEnergyField (bakeDuration A) (order A)) e0))
                          (reflectionsData s),
                      filesWritten := filesWritten s @
                        [(impulseResponsePath (indices s ! j0),
                          exportImpulseResponseAsWav (getImpulseResponse E e0) 44100)]\<rparr>"
    by blast
  show ?case
  proof (cases "j \<in> set js")
    case True
    from Cons.IH [OF rest _ True] Cons.prems(2) m_eq show ?thesis by simp
  next
    case False
    with Cons.prems(3) have j: "j = j0" by simp
    from Cons.prems(2) m_eq have "indices s ! j0 \<notin> (!) (indices m) ` set js" by auto
    from storeEnergyFields_frame [OF rest this] e0 j m_eq show ?thesis
      by (simp add: setEnergyField_def)
  qed
qed

lemma length_simulatedFields [simp]:
  "length (simulatedFields E A s) = length (energyFields s)"
  by (simp add: simulatedFields_def Let_def)

lemma simulatedFields_nth:
  "j < length (energyFields s) \<Longrightarrow>
     simulatedFields E A s ! j =
       (if j < numValidInBatch s
        then map_option (\<lambda>g. g\<lparr>efData :=
               simulate E (length (simCalls s))
                 (fst (endpointCounts (sceneType A) (variation (bakeIdentifier A)) (numValidInBatch s)))
                 (sources s)
                 (snd (endpointCounts (sceneType A) (variation (bakeIdentifier A)) (numValidInBatch s)))
                 (listeners s) j\<rparr>) (energyFields s ! j)
        else energyFields s ! j)"
  by (simp add: simulatedFields_def Let_def nth_enumerate_eq)

lemma writeBack_Inr:
  assumes "writeBack E A n i s = Inr (s', stop)"
  obtains rv ev fw where
    "s' = s\<lparr>sCancel := False,
            progressReports := progressReports s @
              (if callback A then [progressValue i n] else []),
            filesWritten := filesWritten s @ fw,
            reflectionsData := (reflectionsData s)\<lparr>storedReverb := rv, storedEnergyField := ev\<rparr>,
            numValidInBatch := 0\<rparr>"
    and "stop = sCancel s"
    and "\<forall>x. x \<notin> (!) (indices s) ` {..<numValidInBatch s} \<longrightarrow>
           rv x = storedReverb (reflectionsData s) x \<and> ev x = storedEnergyField (reflectionsData s) x"
    and "\<not> bakeParametric A \<longrightarrow> rv = storedReverb (reflectionsData s)"
    and "\<not> bakeConvolution A \<longrightarrow> ev = storedEnergyField (reflectionsData s) \<and> fw = []"
    and "bakeParametric A \<and> distinct (map ((!) (indices s)) [0..<numValidInBatch s]) \<longrightarrow>
           (\<forall>j<numValidInBatch s. \<exists>e. energyFields s ! j = Some e \<and>
                rv (indices s ! j) = Some (estimate E e))"
    and "bakeConvolution A \<and> distinct (map ((!) (indices s)) [0..<numValidInBatch s]) \<longrightarrow>
           (\<forall>j<numValidInBatch s. \<exists>e. energyFields s ! j = Some e \<and>
                ev (indices s ! j) =
                  Some (copyFrom E (createEnergyField (bakeDuration A) (order A)) e))"
    and "bakeConvolution A \<and> 0 < numValidInBatch s \<longrightarrow>
           \<not> float_eq (simDuration A) (bakeDuration A)"
    and "bakeConvolution A \<longrightarrow>
           fw = map (\<lambda>j. (impulseResponsePath (indices s ! j),
                          exportImpulseResponseAsWav
                            (getImpulseResponse E (the (energyFields s ! j))) 44100))
                    [0..<numValidInBatch s]"
proof -
  let ?k = "numValidInBatch s"
  from assms obtain s3 s4 where
    s3: "(if bakeParametric A then storeReverbs E [0..<?k] s else Inr s) = Inr s3"
    and s4: "(if bakeConvolution A then storeEnergyFields E A [0..<numValidInBatch s3] s3
              else Inr s3) = Inr s4"
    and fin: "finishBatch A n i s4 = (s', stop)"
    by (auto simp: writeBack_def split: sum.splits)
  have set_upt: "set [0..<?k] = {..<?k}" by auto
  define rv where "rv = storedReverb (reflectionsData s3)"
  define ev where "ev = storedEnergyField (reflectionsData s4)"
  have s3_shape: "s3 = s\<lparr>reflectionsData := (reflectionsData s)\<lparr>storedReverb := rv\<rparr>\<rparr>"
    unfolding rv_def using s3 by (auto split: if_splits dest: storeReverbs_shape)
  have s3_k: "numValidInBatch s3 = ?k" and s3_idx: "indices s3 = indices s"
    and s3_ef: "energyFields s3 = energyFields s"
    and s3_se: "storedEnergyField (reflectionsData s3) = storedEnergyField (reflectionsData s)"
    and s3_fw: "filesWritten s3 = filesWritten s"
    by (simp_all add: s3_shape)
  define fw where "fw = (if bakeConvolution A
     then map (\<lambda>j. (impulseResponsePath (indices s ! j),
                    exportImpulseResponseAsWav
                      (getImpulseResponse E (the (energyFields s ! j))) 44100)) [0..<?k]
     else [])"
  have s4_shape: "s4 = s3\<lparr>reflectionsData := (reflectionsData s3)\<lparr>storedEnergyField := ev\<rparr>,
      filesWritten := filesWritten s3 @ fw\<rparr>"
    unfolding ev_def using s4 s3_k s3_idx s3_ef
    by (auto simp: fw_def split: if_splits dest: storeEnergyFields_shape)
  have s4_sr: "storedReverb (reflectionsData s4) = storedReverb (reflectionsData s3)"
    by (simp add: s4_shape)
  have shape: "s' = s\<lparr>sCancel := False,
            progressReports := progressReports s @
              (if callback A then [progressValue i n] else []),
            filesWritten := filesWritten s @ fw,
            reflectionsData := (reflectionsData s)\<lparr>storedReverb := rv, storedEnergyField := ev\<rparr>,
            numValidInBatch := 0\<rparr>"
    using fin unfolding s4_shape s3_shape
    by (auto simp: finishBatch_def Let_def split: if_splits)
  have stop: "stop = sCancel s"
    using fin unfolding s4_shape s3_shape
    by (auto simp: finishBatch_def Let_def split: if_splits)
  have frame: "\<forall>x. x \<notin> (!) (indices s) ` {..<?k} \<longrightarrow>
      rv x = storedReverb (reflectionsData s) x \<and>
      ev x = storedEnergyField (reflectionsData s) x"
  proof (intro allI impI conjI)
    fix x assume "x \<notin> (!) (indices s) ` {..<?k}"
    then have x: "x \<notin> (!) (indices s) ` set [0..<?k]" by (simp add: lessThan_atLeast0)
    show "rv x = storedReverb (reflectionsData s) x"
    proof (cases "bakeParametric A")
      case True
      with s3 have "storeReverbs E [0..<?k] s = Inr s3" by simp
      from storeReverbs_frame [OF this x] show ?thesis by (simp add: rv_def)
    next
      case False
      with s3 show ?thesis by (simp add: rv_def)
    qed
    show "ev x = storedEnergyField (reflectionsData s) x"
    proof (cases "bakeConvolution A")
      case True
      with s4 s3_k have "storeEnergyFields E A [0..<?k] s3 = Inr s4" by simp
      from storeEnergyFields_frame [OF this, of x] x s3_idx s3_se show ?thesis
        by (simp add: ev_def)
    next
      case False
      with s4 s3_se show ?thesis by (simp add: ev_def)
    qed
  qed
  have nopar: "\<not> bakeParametric A \<longrightarrow> rv = storedReverb (reflectionsData s)"
    using s3 unfolding rv_def by auto
  have noconv: "\<not> bakeConvolution A \<longrightarrow>
      ev = storedEnergyField (reflectionsData s) \<and> fw = []"
    using s4 s3_se unfolding ev_def by (auto simp: fw_def)
  have par: "bakeParametric A \<and> distinct (map ((!) (indices s)) [0..<?k]) \<longrightarrow>
           (\<forall>j<?k. \<exists>e. energyFields s ! j = Some e \<and>
                rv (indices s ! j) = Some (estimate E e))"
  proof (intro impI allI)
    fix j assume h: "bakeParametric A \<and> distinct (map ((!) (indices s)) [0..<?k])" and j: "j < ?k"
    from h s3 have "storeReverbs E [0..<?k] s = Inr s3" by simp
    from storeReverbs_value [OF this, of j] h j
    show "\<exists>e. energyFields s ! j = Some e \<and> rv (indices s ! j) = Some (estimate E e)"
      by (simp add: rv_def)
  qed
  have conv: "bakeConvolution A \<and> distinct (map ((!) (indices s)) [0..<?k]) \<longrightarrow>
           (\<forall>j<?k. \<exists>e. energyFields s ! j = Some e \<and>
                ev (indices s ! j) =
                  Some (copyFrom E (createEnergyField (bakeDuration A) (order A)) e))"
  proof (intro impI allI)
    fix j assume h: "bakeConvolution A \<and> distinct (map ((!) (indices s)) [0..<?k])" and j: "j < ?k"
    from h s4 s3_k have "storeEnergyFields E A [0..<?k] s3 = Inr s4" by simp
    from storeEnergyFields_value [OF this, of j] h j s3_idx s3_ef ev_def
    show "\<exists>e. energyFields s ! j = Some e \<and>
                ev (indices s ! j) =
                  Some (copyFrom E (createEnergyField (bakeDuration A) (order A)) e)"
      by simp
  qed
  have differ: "bakeConvolution A \<and> 0 < ?k \<longrightarrow> \<not> float_eq (simDuration A) (bakeDuration A)"
  proof
    assume h: "bakeConvolution A \<and> 0 < ?k"
    with s4 s3_k have run: "storeEnergyFields E A [0..<?k] s3 = Inr s4" by simp
    from h have "[0..<?k] \<noteq> []" by simp
    from storeEnergyFields_differ [OF run this]
    show "\<not> float_eq (simDuration A) (bakeDuration A)" .
  qed
  have files: "bakeConvolution A \<longrightarrow>
           fw = map (\<lambda>j. (impulseResponsePath (indices s ! j),
                          exportImpulseResponseAsWav
                            (getImpulseResponse E (the (energyFields s ! j))) 44100)) [0..<?k]"
    by (simp add: fw_def)
  from that [OF shape stop frame nopar noconv par conv differ files] show thesis .
qed

lemma simulateBatch_fields [simp]:
  "sCancel (simulateBatch E A i s) = sCancel s"
  "sBakeInProgress (simulateBatch E A i s) = sBakeInProgress s"
  "probeBatch (simulateBatch E A i s) = probeBatch s"
  "progressReports (simulateBatch E A i s) = progressReports s"
  "filesWritten (simulateBatch E A i s) = filesWritten s"
  "reflectionsData (simulateBatch E A i s) = reflectionsData s"
  "sources (simulateBatch E A i s) = sources s"
  "listeners (simulateBatch E A i s) = listeners s"
  "indices (simulateBatch E A i s) = indices s"
  "numValidInBatch (simulateBatch E A i s) = numValidInBatch s"
  "energyFields (simulateBatch E A i s) = simulatedFields E A s"
  "simCalls (simulateBatch E A i s) = simCalls s @ [issuedCall E A i s]"
  by (simp_all add: simulateBatch_def)

lemma loopBody_Inr:
  assumes "loopBody E A ps i s = Inr (s', stop)"
  obtains (skip) s1 where
      "addProbe E A i (ps ! i) (if cancelRequested E i then cancel s else s) = Inr s1"
      and "\<not> batchCloses A (length ps) i s1" and "s' = s1" and "\<not> stop"
  | (close) s1 rv ev fw where
      "addProbe E A i (ps ! i) (if cancelRequested E i then cancel s else s) = Inr s1"
      and "batchCloses A (length ps) i s1"
      and "stop = sCancel s1"
      and "s' = s1\<lparr>sCancel := False,
              simCalls := simCalls s1 @ [issuedCall E A i s1],
              progressReports := progressReports s1 @
                (if callback A then [progressValue i (length ps)] else []),
              filesWritten := filesWritten s1 @ fw,
              reflectionsData := (reflectionsData s1)\<lparr>storedReverb := rv, storedEnergyField := ev\<rparr>,
              energyFields := simulatedFields E A s1,
              numValidInBatch := 0\<rparr>"
      and "\<forall>x. x \<notin> (!) (indices s1) ` {..<numValidInBatch s1} \<longrightarrow>
             rv x = storedReverb (reflectionsData s1) x \<and>
             ev x = storedEnergyField (reflectionsData s1) x"
      and "\<not> bakeParametric A \<longrightarrow> rv = storedReverb (reflectionsData s1)"
      and "\<not> bakeConvolution A \<longrightarrow> ev = storedEnergyField (reflectionsData s1) \<and> fw = []"
      and "bakeParametric A \<and> distinct (map ((!) (indices s1)) [0..<numValidInBatch s1]) \<longrightarrow>
             (\<forall>j<numValidInBatch s1. \<exists>e. simulatedFields E A s1 ! j = Some e \<and>
                  rv (indices s1 ! j) = Some (estimate E e))"
      and "bakeConvolution A \<and> distinct (map ((!) (indices s1)) [0..<numValidInBatch s1]) \<longrightarrow>
             (\<forall>j<numValidInBatch s1. \<exists>e. simulatedFields E A s1 ! j = Some e \<and>
                  ev (indices s1 ! j) =
                    Some (copyFrom E (createEnergyField (bakeDuration A) (order A)) e))"
      and "bakeConvolution A \<and> 0 < numValidInBatch s1 \<longrightarrow>
             \<not> float_eq (simDuration A) (bakeDuration A)"
      and "bakeConvolution A \<longrightarrow>
             fw = map (\<lambda>j. (impulseResponsePath (indices s1 ! j),
                            exportImpulseResponseAsWav
                              (getImpulseResponse E (the (simulatedFields E A s1 ! j))) 44100))
                      [0..<numValidInBatch s1]"
proof -
  let ?s0 = "if cancelRequested E i then cancel s else s"
  obtain s1 where s1: "addProbe E A i (ps ! i) ?s0 = Inr s1"
    using assms unfolding loopBody_def
    by (cases "addProbe E A i (ps ! i) ?s0") (simp_all only: sum.case sum.distinct)
  from assms have rest: "(if batchCloses A (length ps) i s1
                then writeBack E A (length ps) i (simulateBatch E A i s1)
                else Inr (s1, False)) = Inr (s', stop)"
    unfolding loopBody_def s1 by (simp only: sum.case)
  show thesis
  proof (cases "batchCloses A (length ps) i s1")
    case False
    with rest have "s' = s1" and "\<not> stop" by simp_all
    then show thesis by (rule skip [OF s1 False])
  next
    case True
    with rest have wb: "writeBack E A (length ps) i (simulateBatch E A i s1) = Inr (s', stop)"
      by simp
    from wb show thesis
    proof (cases rule: writeBack_Inr)
      case (1 rv ev fw)
      from 1(1) have shape: "s' = s1\<lparr>sCancel := False,
              simCalls := simCalls s1 @ [issuedCall E A i s1],
              progressReports := progressReports s1 @
                (if callback A then [progressValue i (length ps)] else []),
              filesWritten := filesWritten s1 @ fw,
              reflectionsData := (reflectionsData s1)\<lparr>storedReverb := rv, storedEnergyField := ev\<rparr>,
              energyFields := simulatedFields E A s1,
              numValidInBatch := 0\<rparr>"
        by (simp add: simulateBatch_def)
      show thesis
        by (rule close [OF s1 True _ shape]) (use 1 in simp_all)
    qed
  qed
qed

subsection \<open>The loop and its invariant\<close>

lemma bakeLoop_rule:
  assumes run: "bakeLoop E A ps i s = Inr r"
    and start: "I i s" and le: "i \<le> length ps"
    and step: "\<And>i s s'. i < length ps \<Longrightarrow> I i s \<Longrightarrow> loopBody E A ps i s = Inr (s', False)
                 \<Longrightarrow> I (Suc i) s'"
    and stop: "\<And>i s s'. i < length ps \<Longrightarrow> I i s \<Longrightarrow> loopBody E A ps i s = Inr (s', True)
                 \<Longrightarrow> R s'"
    and exit: "\<And>s. I (length ps) s \<Longrightarrow> R s"
  shows "R r"
  using run start le
proof (induction "length ps - i" arbitrary: i s)
  case 0
  then have "i = length ps" by simp
  with 0 exit show ?case by (simp add: bakeLoop.simps [of E A ps "length ps" s])
next
  case (Suc n)
  then have lt: "i < length ps" by simp
  from Suc.prems(1) lt obtain s' st where body: "loopBody E A ps i s = Inr (s', st)"
    and rest: "(if st then Inr s' else bakeLoop E A ps (Suc i) s') = Inr r"
    by (auto simp: bakeLoop.simps [of E A ps i s] split: sum.splits)
  show ?case
  proof (cases st)
    case True
    with body rest stop [OF lt Suc.prems(2)] show ?thesis by simp
  next
    case False
    with body step [OF lt Suc.prems(2)] have inv: "I (Suc i) s'" by simp
    from False rest have "bakeLoop E A ps (Suc i) s' = Inr r" by simp
    from Suc.hyps(1) [OF _ this inv] Suc.hyps(2) lt show ?thesis by simp
  qed
qed

lemma cancel_fields [simp]:
  "sBakeInProgress (cancel s) = sBakeInProgress s"
  "numValidInBatch (cancel s) = numValidInBatch s"
  "sources (cancel s) = sources s"
  "listeners (cancel s) = listeners s"
  "energyFields (cancel s) = energyFields s"
  "indices (cancel s) = indices s"
  "simCalls (cancel s) = simCalls s"
  "progressReports (cancel s) = progressReports s"
  "filesWritten (cancel s) = filesWritten s"
  "reflectionsData (cancel s) = reflectionsData s"
  "probeBatch (cancel s) = probeBatch s"
  "sCancel (cancel s) = (sCancel s \<or> sBakeInProgress s)"
  by (simp_all add: cancel_def)

lemma afterLoop_fields [simp]:
  "sBakeInProgress (afterLoop E s) = sBakeInProgress s"
  "simCalls (afterLoop E s) = simCalls s"
  "progressReports (afterLoop E s) = progressReports s"
  "filesWritten (afterLoop E s) = filesWritten s"
  "reflectionsData (afterLoop E s) = reflectionsData s"
  "probeBatch (afterLoop E s) = probeBatch s"
  "sCancel (afterLoop E s) = (sCancel s \<or> cancelAfterLoop E \<and> sBakeInProgress s)"
  by (simp_all add: afterLoop_def)

lemma arraysOk_cancel [simp]:
  "arraysOk E A ps i (if b then cancel s else s) = arraysOk E A ps i s"
  by (simp add: arraysOk_def)

lemma arraysOk_Suc: "arraysOk E A ps i s \<Longrightarrow> arraysOk E A ps (Suc i) s"
  unfolding arraysOk_def by (blast intro: less_SucI)

lemma addProbe_arraysOk:
  assumes ok: "headOk E A ps i s" and i: "i < length ps"
    and add: "addProbe E A i (ps ! i) (if b then cancel s else s) = Inr s1"
  shows "arraysOk E A ps (Suc i) s1"
  using add
proof (cases rule: addProbe_Inr)
  case invalid
  from ok have "arraysOk E A ps (Suc i) (if b then cancel s else s)"
    by (simp only: arraysOk_cancel headOk_def arraysOk_Suc)
  with invalid show ?thesis by simp
next
  case (valid src lst)
  from valid(1) have pv: "probeValid E (bakeIdentifier A) (ps ! i)"
    by (simp add: probeValid_def)
  let ?n = "numValidInBatch s"
  from ok have a: "arraysOk E A ps i s" by (simp add: headOk_def)
  from valid(2) a have n: "?n < nat (bakeBatchSize A)" by (simp add: arraysOk_def split: if_splits)
  have idx: "(indices s)[?n := i] ! j = (if j = ?n then i else indices s ! j)" for j
    using a n by (simp add: arraysOk_def nth_list_update)
  have ef: "(energyFields s)[?n := Some x] ! j = (if j = ?n then Some x else energyFields s ! j)"
    for j x using a n by (simp add: arraysOk_def nth_list_update)
  from a n pv i show ?thesis
    unfolding valid(6) arraysOk_def
    by (auto simp: idx ef less_Suc_eq split: if_splits)
qed

lemma addProbe_numValid:
  assumes "addProbe E A i p s = Inr s1"
  shows "numValidInBatch s1 = (if probeValid E (bakeIdentifier A) p then Suc (numValidInBatch s)
                               else numValidInBatch s)"
    and "probeValid E (bakeIdentifier A) p \<Longrightarrow>
           numValidInBatch s < length (indices s) \<and> indices s1 = (indices s)[numValidInBatch s := i]"
    and "\<not> probeValid E (bakeIdentifier A) p \<Longrightarrow> s1 = s"
  using assms by (cases rule: addProbe_Inr; simp add: probeValid_def)+

lemma addProbe_frame:
  assumes "addProbe E A i p s = Inr s1"
  shows "sCancel s1 = sCancel s" and "sBakeInProgress s1 = sBakeInProgress s"
    and "probeBatch s1 = probeBatch s" and "simCalls s1 = simCalls s"
    and "progressReports s1 = progressReports s" and "filesWritten s1 = filesWritten s"
    and "reflectionsData s1 = reflectionsData s"
  using assms by (cases rule: addProbe_Inr; simp)+

lemma headOk_step:
  assumes ok: "headOk E A ps i s" and i: "i < length ps"
    and body: "loopBody E A ps i s = Inr (s', stop)"
  shows "headOk E A ps (Suc i) s'"
  using body
proof (cases rule: loopBody_Inr)
  case (skip s1)
  from addProbe_arraysOk [OF ok i skip(1)] have a: "arraysOk E A ps (Suc i) s1" .
  from skip(2) have "int (numValidInBatch s1) \<noteq> bakeBatchSize A"
    by (simp add: batchCloses_def)
  moreover from a have "numValidInBatch s1 \<le> nat (bakeBatchSize A)"
    by (simp add: arraysOk_def)
  ultimately have "numValidInBatch s1 = 0 \<or> numValidInBatch s1 < nat (bakeBatchSize A)"
    by arith
  with a skip(3) show ?thesis by (simp add: headOk_def)
next
  case (close s1 rv ev fw)
  from addProbe_arraysOk [OF ok i close(1)] have a: "arraysOk E A ps (Suc i) s1" .
  then show ?thesis
    unfolding close(4) by (simp add: headOk_def arraysOk_def)
qed

lemma issuedCall_fields [simp]:
  "numSources (issuedCall E A i s) =
     fst (endpointCounts (sceneType A) (variation (bakeIdentifier A)) (numValidInBatch s))"
  "numListeners (issuedCall E A i s) =
     snd (endpointCounts (sceneType A) (variation (bakeIdentifier A)) (numValidInBatch s))"
  "callSources (issuedCall E A i s) = sources s"
  "callListeners (issuedCall E A i s) = listeners s"
  "batchIndices (issuedCall E A i s) = take (numValidInBatch s) (indices s)"
  "outFields (issuedCall E A i s) = take (numValidInBatch s) (simulatedFields E A s)"
  "closedAt (issuedCall E A i s) = i"
  by (simp_all add: issuedCall_def Let_def)

lemma issuedCall_ok:
  assumes a: "arraysOk E A ps (Suc i) s1" and i: "i < length ps"
    and closes: "batchCloses A (length ps) i s1"
    and last: "probeValid E (bakeIdentifier A) (ps ! i) \<Longrightarrow>
                 0 < numValidInBatch s1 \<and> indices s1 ! (numValidInBatch s1 - 1) = i"
  shows "callOk E A ps (issuedCall E A i s1)"
proof -
  let ?k = "numValidInBatch s1"
  from a have k: "?k \<le> length (indices s1)" and k': "?k \<le> length (energyFields s1)"
    and kb: "?k \<le> nat (bakeBatchSize A)"
    by (simp_all add: arraysOk_def)
  have members: "\<forall>x\<in>set (take ?k (indices s1)). x \<le> i \<and> probeValid E (bakeIdentifier A) (ps ! x)"
  proof
    fix x assume "x \<in> set (take ?k (indices s1))"
    then obtain j where "j < ?k" and "x = indices s1 ! j"
      using k by (auto simp: in_set_conv_nth)
    with a show "x \<le> i \<and> probeValid E (bakeIdentifier A) (ps ! x)"
      by (auto simp: arraysOk_def)
  qed
  have lastin: "i \<in> set (take ?k (indices s1))" if "probeValid E (bakeIdentifier A) (ps ! i)"
  proof -
    from last [OF that] have "?k - 1 < ?k" and "take ?k (indices s1) ! (?k - 1) = i" by simp_all
    with k show ?thesis by (metis length_take min.absorb2 nth_mem)
  qed
  from closes have "int ?k = bakeBatchSize A \<or> Suc i = length ps"
    by (auto simp: batchCloses_def)
  with k k' kb i members lastin show ?thesis
    by (simp add: callOk_def)
qed

lemma arraysOk_distinct:
  assumes "arraysOk E A ps i s"
  shows "distinct (map ((!) (indices s)) [0..<numValidInBatch s])"
proof -
  have "indices s ! a \<noteq> indices s ! b" if "a < numValidInBatch s" "b < numValidInBatch s" "a \<noteq> b"
    for a b
  proof (cases "a < b")
    case True
    with assms that have "indices s ! a < indices s ! b" by (simp add: arraysOk_def)
    then show ?thesis by simp
  next
    case False
    with that have "b < a" by simp
    with assms that have "indices s ! b < indices s ! a" by (simp add: arraysOk_def)
    then show ?thesis by simp
  qed
  then show ?thesis by (auto simp: distinct_conv_nth)
qed

lemma arraysOk_members:
  assumes "arraysOk E A ps i s"
  shows "set (take (numValidInBatch s) (indices s)) = (!) (indices s) ` {..<numValidInBatch s}"
proof -
  from assms have "numValidInBatch s \<le> length (indices s)" by (simp add: arraysOk_def)
  from nth_image [OF this] show ?thesis by (simp add: lessThan_atLeast0)
qed

lemma callsOk_addProbe:
  assumes c: "callsOk E A ps cs i s" and ok: "headOk E A ps i s"
    and add: "addProbe E A i (ps ! i) (if b then cancel s else s) = Inr s1"
  shows "callsOk E A ps cs (Suc i) s1"
proof -
  have "closedAt c < indices s1 ! j" if "c \<in> set cs" "j < numValidInBatch s1" for c j
  proof (cases "probeValid E (bakeIdentifier A) (ps ! i)")
    case False
    from addProbe_numValid(3) [OF add False] that c show ?thesis
      by (simp add: callsOk_def split: if_splits)
  next
    case True
    from addProbe_numValid(1,2) [OF add] True
    have n: "numValidInBatch s1 = Suc (numValidInBatch s)"
      and l: "numValidInBatch s < length (indices s)"
      and idx: "indices s1 = (indices s)[numValidInBatch s := i]"
      by (simp_all split: if_splits)
    from c that(1) have "closedAt c < i" and "\<forall>j<numValidInBatch s. closedAt c < indices s ! j"
      by (simp_all add: callsOk_def)
    with that(2) n l show ?thesis
      unfolding idx by (cases "j = numValidInBatch s") (simp_all add: nth_list_update)
  qed
  with c show ?thesis
    unfolding callsOk_def by (blast intro: less_SucI)
qed

lemma callsOk_close:
  assumes c0: "callsOk E A ps cs i s" and c1: "callsOk E A ps cs (Suc i) s1"
    and a: "arraysOk E A ps (Suc i) s1"
    and ok: "callOk E A ps c" and at: "closedAt c = i"
    and mem: "batchIndices c = take (numValidInBatch s1) (indices s1)"
    and n: "numValidInBatch s' = 0"
  shows "callsOk E A ps (cs @ [c]) (Suc i) s'"
proof -
  have "closedAt c' < x" if "c' \<in> set cs" "x \<in> set (batchIndices c)" for c' x
  proof -
    from that(2) obtain j where "j < numValidInBatch s1" "x = indices s1 ! j"
      unfolding mem arraysOk_members [OF a] by blast
    with c1 that(1) show ?thesis by (simp add: callsOk_def)
  qed
  moreover from c0 have "\<forall>c'\<in>set cs. closedAt c' < i" by (simp add: callsOk_def)
  ultimately show ?thesis
    using c0 ok at n by (auto simp: callsOk_def sorted_wrt_append)
qed

lemma simulatedFields_Some:
  assumes "arraysOk E A ps i s" and "j < numValidInBatch s"
  shows "\<exists>e. simulatedFields E A s ! j = Some e"
proof -
  from assms have "j < length (energyFields s)" and "energyFields s ! j \<noteq> None"
    by (simp_all add: arraysOk_def)
  then show ?thesis by (auto simp: simulatedFields_nth assms(2))
qed

lemma dataOk_close:
  assumes d: "dataOk E A d0 cs (reflectionsData s1)"
    and c1: "callsOk E A ps cs (Suc i) s1" and a: "arraysOk E A ps (Suc i) s1"
    and frame: "\<forall>x. x \<notin> (!) (indices s1) ` {..<numValidInBatch s1} \<longrightarrow>
             rv x = storedReverb (reflectionsData s1) x \<and>
             ev x = storedEnergyField (reflectionsData s1) x"
    and nopar: "\<not> bakeParametric A \<longrightarrow> rv = storedReverb (reflectionsData s1)"
    and noconv: "\<not> bakeConvolution A \<longrightarrow> ev = storedEnergyField (reflectionsData s1) \<and> fw = []"
    and par: "bakeParametric A \<and> distinct (map ((!) (indices s1)) [0..<numValidInBatch s1]) \<longrightarrow>
             (\<forall>j<numValidInBatch s1. \<exists>e. simulatedFields E A s1 ! j = Some e \<and>
                  rv (indices s1 ! j) = Some (estimate E e))"
    and conv: "bakeConvolution A \<and> distinct (map ((!) (indices s1)) [0..<numValidInBatch s1]) \<longrightarrow>
             (\<forall>j<numValidInBatch s1. \<exists>e. simulatedFields E A s1 ! j = Some e \<and>
                  ev (indices s1 ! j) =
                    Some (copyFrom E (createEnergyField (bakeDuration A) (order A)) e))"
    and differ: "bakeConvolution A \<and> 0 < numValidInBatch s1 \<longrightarrow>
             \<not> float_eq (simDuration A) (bakeDuration A)"
  shows "dataOk E A d0 (cs @ [issuedCall E A i s1])
           ((reflectionsData s1)\<lparr>storedReverb := rv, storedEnergyField := ev\<rparr>)"
proof -
  let ?k = "numValidInBatch s1"
  let ?c = "issuedCall E A i s1"
  note mem = arraysOk_members [OF a]
  note dist = arraysOk_distinct [OF a]
  from a have k: "?k \<le> length (indices s1)" and k': "?k \<le> length (energyFields s1)"
    by (simp_all add: arraysOk_def)
  have old: "rv y = storedReverb (reflectionsData s1) y \<and>
             ev y = storedEnergyField (reflectionsData s1) y"
    if "c' \<in> set cs" "y \<in> set (batchIndices c')" for c' y
  proof -
    from c1 that have y: "y \<le> closedAt c'" and "\<forall>j<?k. closedAt c' < indices s1 ! j"
      by (simp_all add: callsOk_def callOk_def)
    then have "y \<notin> (!) (indices s1) ` {..<?k}" by auto
    with frame show ?thesis by simp
  qed
  have p1: "\<forall>x. (\<forall>c\<in>set (cs @ [?c]). x \<notin> set (batchIndices c)) \<longrightarrow>
          rv x = storedReverb d0 x \<and> ev x = storedEnergyField d0 x"
    using d frame by (simp add: dataOk_def mem)
  have p2: "\<not> bakeParametric A \<longrightarrow> rv = storedReverb d0"
    using d nopar by (simp add: dataOk_def)
  have p3: "\<not> bakeConvolution A \<longrightarrow> ev = storedEnergyField d0"
    using d noconv by (simp add: dataOk_def)
  have p4: "\<exists>e. outFields c ! j = Some e \<and>
          (bakeParametric A \<longrightarrow> rv (batchIndices c ! j) = Some (estimate E e)) \<and>
          (bakeConvolution A \<longrightarrow> \<not> float_eq (simDuration A) (bakeDuration A) \<and>
             ev (batchIndices c ! j) =
               Some (copyFrom E (createEnergyField (bakeDuration A) (order A)) e))"
    if c: "c \<in> set (cs @ [?c])" and j: "j < length (batchIndices c)" for c j
  proof (cases "c \<in> set cs")
    case True
    from j have "batchIndices c ! j \<in> set (batchIndices c)" by simp
    from old [OF True this] d True j show ?thesis by (simp add: dataOk_def)
  next
    case False
    with c have c_eq: "c = ?c" by simp
    with j k have jk: "j < ?k" by simp
    from simulatedFields_Some [OF a jk] obtain e where e: "simulatedFields E A s1 ! j = Some e" ..
    from jk differ have "bakeConvolution A \<longrightarrow> \<not> float_eq (simDuration A) (bakeDuration A)"
      by auto
    with par conv dist jk e show ?thesis
      unfolding c_eq by auto
  qed
  from d p1 p2 p3 p4 show ?thesis
    unfolding dataOk_def by simp
qed

lemma callFiles_issuedCall:
  assumes "arraysOk E A ps i s"
  shows "callFiles E (issuedCall E A j s) =
     map (\<lambda>j. (impulseResponsePath (indices s ! j),
               exportImpulseResponseAsWav
                 (getImpulseResponse E (the (simulatedFields E A s ! j))) 44100))
         [0..<numValidInBatch s]"
proof -
  from assms have "numValidInBatch s \<le> length (indices s)" by (simp add: arraysOk_def)
  then show ?thesis by (simp add: callFiles_def min_absorb2)
qed

lemma cancel_step_frame:
  "simCalls (if b then cancel s else s) = simCalls s"
  "probeBatch (if b then cancel s else s) = probeBatch s"
  "progressReports (if b then cancel s else s) = progressReports s"
  "filesWritten (if b then cancel s else s) = filesWritten s"
  "reflectionsData (if b then cancel s else s) = reflectionsData s"
  "numValidInBatch (if b then cancel s else s) = numValidInBatch s"
  "sCancel (if b then cancel s else s) = (sCancel s \<or> b \<and> sBakeInProgress s)"
  by simp_all

lemma loopInv_step:
  assumes inv: "loopInv E A ps s0 cs i s" and i: "i < length ps"
    and body: "loopBody E A ps i s = Inr (s', stop)"
  obtains (skip) "loopInv E A ps s0 cs (Suc i) s'" and "\<not> stop"
      and "sCancel s' = (sCancel s \<or> cancelRequested E i)"
      and "numValidInBatch s' =
             (if probeValid E (bakeIdentifier A) (ps ! i) then Suc (numValidInBatch s)
              else numValidInBatch s)"
      and "int (numValidInBatch s') \<noteq> bakeBatchSize A" and "Suc i \<noteq> length ps"
  | (close) c where "loopInv E A ps s0 (cs @ [c]) (Suc i) s'" and "closedAt c = i"
      and "stop = (sCancel s \<or> cancelRequested E i)" and "\<not> sCancel s'"
      and "numValidInBatch s' = 0"
      and "length (batchIndices c) =
             (if probeValid E (bakeIdentifier A) (ps ! i) then Suc (numValidInBatch s)
              else numValidInBatch s)"
      and "int (length (batchIndices c)) = bakeBatchSize A \<or> Suc i = length ps"
proof -
  let ?b = "cancelRequested E i"
  from inv have ok: "headOk E A ps i s" and calls: "callsOk E A ps cs i s"
    and data: "dataOk E A (reflectionsData s0) cs (reflectionsData s)"
    and tr: "simCalls s = simCalls s0 @ cs" and pb: "probeBatch s = probeBatch s0"
    and pr: "progressReports s =
       progressReports s0 @ (if callback A then map (progressOf (length ps)) cs else [])"
    and fl: "filesWritten s =
       filesWritten s0 @ (if bakeConvolution A then concat (map (callFiles E) cs) else [])"
    by (simp_all add: loopInv_def)
  from ok have prog: "sBakeInProgress s" by (simp add: headOk_def arraysOk_def)
  from body show thesis
  proof (cases rule: loopBody_Inr)
    case (skip s1)
    note fr = addProbe_frame [OF skip(1), unfolded cancel_step_frame]
    from addProbe_arraysOk [OF ok i skip(1)] have a: "arraysOk E A ps (Suc i) s1" .
    from headOk_step [OF ok i body] skip(3) have h: "headOk E A ps (Suc i) s1" by simp
    from callsOk_addProbe [OF calls ok skip(1)] have c: "callsOk E A ps cs (Suc i) s1" .
    have "loopInv E A ps s0 cs (Suc i) s'"
      unfolding skip(3) loopInv_def using h c data tr pb pr fl fr by simp
    moreover from fr(1) prog have "sCancel s' = (sCancel s \<or> ?b)" by (simp add: skip(3))
    moreover from addProbe_numValid(1) [OF skip(1)]
    have "numValidInBatch s' =
             (if probeValid E (bakeIdentifier A) (ps ! i) then Suc (numValidInBatch s)
              else numValidInBatch s)"
      by (simp add: skip(3))
    moreover from skip(2) i have "int (numValidInBatch s') \<noteq> bakeBatchSize A"
      and "Suc i \<noteq> length ps"
      by (auto simp: batchCloses_def skip(3))
    ultimately show thesis using skip(4) that(1) by blast
  next
    case (close s1 rv ev fw)
    let ?c = "issuedCall E A i s1"
    note fr = addProbe_frame [OF close(1), unfolded cancel_step_frame]
    from addProbe_arraysOk [OF ok i close(1)] have a: "arraysOk E A ps (Suc i) s1" .
    from headOk_step [OF ok i body] have h: "headOk E A ps (Suc i) s'" .
    from callsOk_addProbe [OF calls ok close(1)] have c1: "callsOk E A ps cs (Suc i) s1" .
    from a have k: "numValidInBatch s1 \<le> length (indices s1)" by (simp add: arraysOk_def)
    have nv: "numValidInBatch s1 =
             (if probeValid E (bakeIdentifier A) (ps ! i) then Suc (numValidInBatch s)
              else numValidInBatch s)"
      using addProbe_numValid(1) [OF close(1)] by simp
    have last: "0 < numValidInBatch s1 \<and> indices s1 ! (numValidInBatch s1 - 1) = i"
      if "probeValid E (bakeIdentifier A) (ps ! i)"
      using addProbe_numValid(1,2) [OF close(1)] that by simp
    from issuedCall_ok [OF a i close(2) last] have cok: "callOk E A ps ?c" .
    have n0: "numValidInBatch s' = 0" by (simp add: close(4))
    from callsOk_close [OF calls c1 a cok _ _ n0]
    have c': "callsOk E A ps (cs @ [?c]) (Suc i) s'" by simp
    from data fr have d1: "dataOk E A (reflectionsData s0) cs (reflectionsData s1)" by simp
    from dataOk_close [OF d1 c1 a close(5) close(6) close(7) close(8) close(9) close(10)]
    have d': "dataOk E A (reflectionsData s0) (cs @ [?c]) (reflectionsData s')"
      by (simp add: close(4))
    have f': "filesWritten s' = filesWritten s0 @
        (if bakeConvolution A then concat (map (callFiles E) (cs @ [?c])) else [])"
      using close(7) close(11) fl fr by (simp add: close(4) callFiles_issuedCall [OF a])
    have p': "progressReports s' = progressReports s0 @
        (if callback A then map (progressOf (length ps)) (cs @ [?c]) else [])"
      using pr fr by (simp add: close(4) progressOf_def)
    have "loopInv E A ps s0 (cs @ [?c]) (Suc i) s'"
      unfolding loopInv_def using h c' d' f' p' tr pb fr by (simp add: close(4))
    moreover have "closedAt ?c = i" by simp
    moreover from close(3) fr(1) prog have "stop = (sCancel s \<or> ?b)" by simp
    moreover have "\<not> sCancel s'" by (simp add: close(4))
    moreover note n0
    moreover from nv k have "length (batchIndices ?c) =
             (if probeValid E (bakeIdentifier A) (ps ! i) then Suc (numValidInBatch s)
              else numValidInBatch s)"
      by (simp add: min_absorb2)
    moreover from cok i have "int (length (batchIndices ?c)) = bakeBatchSize A \<or> Suc i = length ps"
      by (simp add: callOk_def)
    ultimately show thesis by (rule that(2))
  qed
qed

subsection \<open>Bakes that return\<close>

lemma effectiveArgs_fields [simp]:
  "bakeIdentifier (effectiveArgs A) = bakeIdentifier A"
  "bakeConvolution (effectiveArgs A) = bakeConvolution A"
  "bakeParametric (effectiveArgs A) = bakeParametric A"
  "simDuration (effectiveArgs A) = simDuration A"
  "bakeDuration (effectiveArgs A) = bakeDuration A"
  "order (effectiveArgs A) = order A"
  "sceneType (effectiveArgs A) = sceneType A"
  "callback (effectiveArgs A) = callback A"
  by (simp_all add: effectiveArgs_def)

lemma initialState_fields [simp]:
  "sCancel (initialState A w) = sCancel w"
  "sBakeInProgress (initialState A w)"
  "probeBatch (initialState A w) = probeBatch w"
  "simCalls (initialState A w) = simCalls w"
  "progressReports (initialState A w) = progressReports w"
  "filesWritten (initialState A w) = filesWritten w"
  "reflectionsData (initialState A w) = prepareData A (probeBatch w)"
  "numValidInBatch (initialState A w) = 0"
  by (simp_all add: initialState_def Let_def)

lemma finalWorld_fields [simp]:
  "sCancel (finalWorld A s) = sCancel s"
  "\<not> sBakeInProgress (finalWorld A s)"
  "simCalls (finalWorld A s) = simCalls s"
  "progressReports (finalWorld A s) = progressReports s"
  "filesWritten (finalWorld A s) = filesWritten s"
  "probes (probeBatch (finalWorld A s)) = probes (probeBatch s)"
  "bakedData (probeBatch (finalWorld A s)) (bakeIdentifier A) = Some (reflectionsData s)"
  "ident \<noteq> bakeIdentifier A \<Longrightarrow>
     bakedData (probeBatch (finalWorld A s)) ident = bakedData (probeBatch s) ident"
  by (simp_all add: finalWorld_def addData_def)

lemma prepareData_fields [simp]:
  "hasConvolution (prepareData A pb) = bakeConvolution A"
  "hasParametric (prepareData A pb) = bakeParametric A"
  "storedReverb (prepareData A pb) i = reverbOf pb (bakeIdentifier A) i"
  "storedEnergyField (prepareData A pb) i = energyFieldOf pb (bakeIdentifier A) i"
  by (simp_all add: prepareData_def setHasParametric_def setHasConvolution_def
      newBakedReflectionsData_def reverbOf_def energyFieldOf_def Let_def split: option.splits)

lemma prepareData_effectiveArgs [simp]:
  "prepareData (effectiveArgs A) pb = prepareData A pb"
  by (simp add: prepareData_def cong: option.case_cong)

lemma loopInv_initial: "loopInv E A ps (initialState A w) [] 0 (initialState A w)"
  by (simp add: loopInv_def headOk_def arraysOk_def callsOk_def dataOk_def)
     (simp add: initialState_def Let_def)

lemma bakeLoop_loopInv:
  assumes run: "bakeLoop E A ps 0 s0 = Inr sF" and init: "loopInv E A ps s0 [] 0 s0"
  shows "\<exists>cs j. j \<le> length ps \<and> loopInv E A ps s0 cs j sF"
proof (rule bakeLoop_rule [OF run, where I = "\<lambda>i s. \<exists>cs. loopInv E A ps s0 cs i s"])
  from init show "\<exists>cs. loopInv E A ps s0 cs 0 s0" ..
next
  fix i s s' assume i: "i < length ps" and "\<exists>cs. loopInv E A ps s0 cs i s"
    and body: "loopBody E A ps i s = Inr (s', False)"
  then obtain cs where inv: "loopInv E A ps s0 cs i s" by blast
  from inv i body show "\<exists>cs. loopInv E A ps s0 cs (Suc i) s'"
    by (cases rule: loopInv_step) blast+
next
  fix i s s' assume i: "i < length ps" and "\<exists>cs. loopInv E A ps s0 cs i s"
    and body: "loopBody E A ps i s = Inr (s', True)"
  then obtain cs where inv: "loopInv E A ps s0 cs i s" by blast
  from inv i body have "\<exists>cs. loopInv E A ps s0 cs (Suc i) s'"
    by (cases rule: loopInv_step) blast+
  with i show "\<exists>cs j. j \<le> length ps \<and> loopInv E A ps s0 cs j s'"
    by (metis Suc_leI)
qed auto

lemma bake_Inr:
  assumes "bake E A w = Inr r"
  obtains sF where "bakeConvolution A \<or> bakeParametric A"
    and "type (bakeIdentifier A) = Reflections"
    and "variation (bakeIdentifier A) \<noteq> Dynamic"
    and "0 \<le> bakeBatchSize (effectiveArgs A)"
    and "bakeLoop E (effectiveArgs A) (probes (probeBatch w)) 0
           (initialState (effectiveArgs A) w) = Inr sF"
    and "r = finalWorld A (afterLoop E sF)"
  using assms by (auto simp: bake_def split: if_splits sum.splits)

lemma bake_summary:
  assumes "bake E A w = Inr r"
  obtains sF j where
    "loopInv E (effectiveArgs A) (probes (probeBatch w)) (initialState (effectiveArgs A) w)
       (newCalls w r) j sF"
    and "r = finalWorld A (afterLoop E sF)" and "j \<le> length (probes (probeBatch w))"
proof -
  from assms obtain sF where
    run: "bakeLoop E (effectiveArgs A) (probes (probeBatch w)) 0
           (initialState (effectiveArgs A) w) = Inr sF"
    and r: "r = finalWorld A (afterLoop E sF)"
    by (rule bake_Inr)
  from bakeLoop_loopInv [OF run loopInv_initial] obtain cs j where
    j: "j \<le> length (probes (probeBatch w))"
    and inv: "loopInv E (effectiveArgs A) (probes (probeBatch w))
       (initialState (effectiveArgs A) w) cs j sF"
    by blast
  from inv have "simCalls sF = simCalls w @ cs" by (simp add: loopInv_def)
  with r have "newCalls w r = cs" by (simp add: newCalls_def)
  with inv r j that show thesis by blast
qed

lemma bake_calls_ok:
  assumes "bake E A w = Inr r" and "c \<in> set (newCalls w r)"
  shows "callOk E (effectiveArgs A) (probes (probeBatch w)) c"
    and "0 \<le> bakeBatchSize (effectiveArgs A)"
proof -
  from assms(1) obtain sF j where
    "loopInv E (effectiveArgs A) (probes (probeBatch w)) (initialState (effectiveArgs A) w)
       (newCalls w r) j sF"
    by (rule bake_summary)
  with assms(2) show "callOk E (effectiveArgs A) (probes (probeBatch w)) c"
    by (simp add: loopInv_def callsOk_def)
  from assms(1) show "0 \<le> bakeBatchSize (effectiveArgs A)" by (rule bake_Inr)
qed

lemma bake_data:
  assumes "bake E A w = Inr r"
  obtains d where "bakedData (probeBatch r) (bakeIdentifier A) = Some d"
    and "dataOk E (effectiveArgs A) (prepareData A (probeBatch w)) (newCalls w r) d"
    and "\<forall>ident. ident \<noteq> bakeIdentifier A \<longrightarrow>
           bakedData (probeBatch r) ident = bakedData (probeBatch w) ident"
    and "probes (probeBatch r) = probes (probeBatch w)"
proof -
  from assms obtain sF j where
    inv: "loopInv E (effectiveArgs A) (probes (probeBatch w)) (initialState (effectiveArgs A) w)
       (newCalls w r) j sF"
    and r: "r = finalWorld A (afterLoop E sF)"
    by (rule bake_summary)
  from inv have pb: "probeBatch sF = probeBatch w"
    and d: "dataOk E (effectiveArgs A) (prepareData A (probeBatch w)) (newCalls w r)
              (reflectionsData sF)"
    by (simp_all add: loopInv_def)
  show thesis
  proof (rule that [of "reflectionsData sF"])
    show "dataOk E (effectiveArgs A) (prepareData A (probeBatch w)) (newCalls w r)
            (reflectionsData sF)"
      by (rule d)
  qed (simp_all add: r pb)
qed

lemma reverbOf_Some:
  "bakedData pb ident = Some d \<Longrightarrow> reverbOf pb ident i = storedReverb d i"
  "bakedData pb ident = Some d \<Longrightarrow> energyFieldOf pb ident i = storedEnergyField d i"
  by (simp_all add: reverbOf_def energyFieldOf_def)

lemma bake_frame:
  assumes "bake E A w = Inr r" and "\<forall>c\<in>set (newCalls w r). x \<notin> set (batchIndices c)"
  shows "reverbOf (probeBatch r) (bakeIdentifier A) x = reverbOf (probeBatch w) (bakeIdentifier A) x"
    and "energyFieldOf (probeBatch r) (bakeIdentifier A) x =
         energyFieldOf (probeBatch w) (bakeIdentifier A) x"
proof -
  from assms(1) obtain d where d: "bakedData (probeBatch r) (bakeIdentifier A) = Some d"
    and ok: "dataOk E (effectiveArgs A) (prepareData A (probeBatch w)) (newCalls w r) d"
    by (rule bake_data)
  from ok assms(2) have "storedReverb d x = storedReverb (prepareData A (probeBatch w)) x"
    and "storedEnergyField d x = storedEnergyField (prepareData A (probeBatch w)) x"
    by (simp_all add: dataOk_def)
  with d show "reverbOf (probeBatch r) (bakeIdentifier A) x
                 = reverbOf (probeBatch w) (bakeIdentifier A) x"
    and "energyFieldOf (probeBatch r) (bakeIdentifier A) x =
         energyFieldOf (probeBatch w) (bakeIdentifier A) x"
    by (simp_all add: reverbOf_Some)
qed


subsection \<open>Bakes that cannot fail\<close>

lemma storeReverbs_succeeds:
  "\<forall>j\<in>set js. j < length (energyFields s) \<and> j < length (indices s) \<and> energyFields s ! j \<noteq> None
     \<Longrightarrow> \<exists>s'. storeReverbs E js s = Inr s'"
  by (induction js arbitrary: s) auto

lemma storeEnergyField_succeeds:
  assumes "\<not> float_eq (simDuration A) (bakeDuration A)"
    and "j < length (energyFields s)" and "j < length (indices s)" and "energyFields s ! j \<noteq> None"
  shows "\<exists>s'. storeEnergyField E A j s = Inr s' \<and> energyFields s' = energyFields s \<and>
              indices s' = indices s"
  using assms by (auto simp: storeEnergyField_def)

lemma storeEnergyFields_succeeds:
  "\<not> float_eq (simDuration A) (bakeDuration A) \<Longrightarrow>
   \<forall>j\<in>set js. j < length (energyFields s) \<and> j < length (indices s) \<and> energyFields s ! j \<noteq> None
     \<Longrightarrow> \<exists>s'. storeEnergyFields E A js s = Inr s'"
proof (induction js arbitrary: s)
  case Nil
  then show ?case by simp
next
  case (Cons j js)
  from storeEnergyField_succeeds [OF Cons.prems(1), of j s E] Cons.prems(2)
  obtain m where m: "storeEnergyField E A j s = Inr m" and "energyFields m = energyFields s"
    and "indices m = indices s"
    by auto
  with Cons.prems(2) have "\<forall>j\<in>set js. j < length (energyFields m) \<and> j < length (indices m) \<and>
      energyFields m ! j \<noteq> None"
    by simp
  from Cons.IH [OF Cons.prems(1) this] m show ?case by simp
qed

lemma writeBack_succeeds:
  assumes differ: "bakeConvolution A \<longrightarrow> \<not> float_eq (simDuration A) (bakeDuration A)"
    and ok: "\<forall>j<numValidInBatch s. j < length (energyFields s) \<and> j < length (indices s) \<and>
               energyFields s ! j \<noteq> None"
  shows "\<exists>s' stop. writeBack E A n i s = Inr (s', stop)"
proof -
  let ?js = "[0..<numValidInBatch s]"
  from ok have ok': "\<forall>j\<in>set ?js. j < length (energyFields s) \<and> j < length (indices s) \<and>
               energyFields s ! j \<noteq> None"
    by simp
  obtain s3 where s3: "(if bakeParametric A then storeReverbs E ?js s else Inr s) = Inr s3"
    using storeReverbs_succeeds [OF ok', of E] by (cases "bakeParametric A") auto
  have same: "numValidInBatch s3 = numValidInBatch s \<and> energyFields s3 = energyFields s \<and>
    indices s3 = indices s"
  proof (cases "bakeParametric A")
    case True
    with s3 have "storeReverbs E ?js s = Inr s3" by simp
    then show ?thesis by (drule_tac storeReverbs_shape) (erule ssubst, simp)
  next
    case False
    with s3 show ?thesis by simp
  qed
  obtain s4 where "(if bakeConvolution A then storeEnergyFields E A [0..<numValidInBatch s3] s3
                    else Inr s3) = Inr s4"
  proof (cases "bakeConvolution A")
    case True
    with differ have d: "\<not> float_eq (simDuration A) (bakeDuration A)" by simp
    from storeEnergyFields_succeeds [OF d, of ?js s3 E] ok' same True that show ?thesis by auto
  next
    case False
    with that show ?thesis by simp
  qed
  with s3 show ?thesis
    by (cases "finishBatch A n i s4") (simp add: writeBack_def)
qed

lemma loopBody_succeeds:
  assumes ok: "headOk E A ps i s" and i: "i < length ps" and b: "0 < bakeBatchSize A"
    and differ: "bakeConvolution A \<longrightarrow> \<not> float_eq (simDuration A) (bakeDuration A)"
  shows "\<exists>s' stop. loopBody E A ps i s = Inr (s', stop)"
proof -
  define s0 where "s0 = (if cancelRequested E i then cancel s else s)"
  from ok b have room: "numValidInBatch s0 < nat (bakeBatchSize A)"
    by (auto simp: headOk_def s0_def)
  from ok have len: "length (sources s0) = nat (bakeBatchSize A)"
    "length (listeners s0) = nat (bakeBatchSize A)"
    "length (energyFields s0) = nat (bakeBatchSize A)"
    "length (indices s0) = nat (bakeBatchSize A)"
    by (simp_all add: headOk_def arraysOk_def s0_def)
  obtain s1 where s1': "addProbe E A i (ps ! i) s0 = Inr s1"
    using room len
    by (cases "selectEndpoints E (bakeIdentifier A) (ps ! i)")
       (auto simp: addProbe_def Let_def)
  then have s1: "addProbe E A i (ps ! i) (if cancelRequested E i then cancel s else s) = Inr s1"
    by (simp only: s0_def)
  from addProbe_arraysOk [OF ok i s1] have a: "arraysOk E A ps (Suc i) s1" .
  show ?thesis
  proof (cases "batchCloses A (length ps) i s1")
    case False
    with s1 have "loopBody E A ps i s = Inr (s1, False)" by (simp add: loopBody_def)
    then show ?thesis by blast
  next
    case True
    have "\<forall>j<numValidInBatch (simulateBatch E A i s1).
            j < length (energyFields (simulateBatch E A i s1)) \<and>
            j < length (indices (simulateBatch E A i s1)) \<and>
            energyFields (simulateBatch E A i s1) ! j \<noteq> None"
      using a simulatedFields_Some [OF a] by (auto simp: arraysOk_def)
    from writeBack_succeeds [OF differ this, of E "length ps" i] s1 True show ?thesis
      by (simp add: loopBody_def)
  qed
qed

lemma bakeLoop_succeeds:
  assumes b: "0 < bakeBatchSize A"
    and differ: "bakeConvolution A \<longrightarrow> \<not> float_eq (simDuration A) (bakeDuration A)"
  shows "headOk E A ps i s \<Longrightarrow> \<exists>r. bakeLoop E A ps i s = Inr r"
proof (induction "length ps - i" arbitrary: i s)
  case 0
  then show ?case by (simp add: bakeLoop.simps [of E A ps i s])
next
  case (Suc n)
  then have i: "i < length ps" by simp
  from loopBody_succeeds [OF Suc.prems i b differ] obtain s' st where
    body: "loopBody E A ps i s = Inr (s', st)"
    by blast
  from headOk_step [OF Suc.prems i body] have h: "headOk E A ps (Suc i) s'" .
  from Suc.hyps(2) have "n = length ps - Suc i" by simp
  from Suc.hyps(1) [OF this h] obtain r where "bakeLoop E A ps (Suc i) s' = Inr r" ..
  with body i show ?case
    by (cases st) (simp_all add: bakeLoop.simps [of E A ps i s])
qed

lemma bake_succeeds:
  assumes "bakeConvolution A \<or> bakeParametric A" and "type (bakeIdentifier A) = Reflections"
    and "variation (bakeIdentifier A) \<noteq> Dynamic"
    and "0 < bakeBatchSize (effectiveArgs A)"
    and "bakeConvolution A \<longrightarrow> \<not> float_eq (simDuration A) (bakeDuration A)"
  shows "\<exists>r. bake E A w = Inr r"
proof -
  let ?A = "effectiveArgs A"
  have "headOk E ?A (probes (probeBatch w)) 0 (initialState ?A w)"
    using loopInv_initial [of E ?A "probes (probeBatch w)" w] by (simp add: loopInv_def)
  from bakeLoop_succeeds [OF assms(4) _ this] assms(5)
  obtain sF where "bakeLoop E ?A (probes (probeBatch w)) 0 (initialState ?A w) = Inr sF"
    by auto
  with assms show ?thesis by (simp add: bake_def)
qed

subsection \<open>Bakes that run to the last probe\<close>

lemma bakeLoop_completes:
  assumes run: "bakeLoop E A ps 0 s0 = Inr sF" and init: "loopInv E A ps s0 [] 0 s0"
    and quiet: "\<not> sCancel s0" "\<forall>i<length ps. \<not> cancelRequested E i"
  shows "\<exists>cs. loopInv E A ps s0 cs (length ps) sF \<and> \<not> sCancel sF \<and>
              (0 < length ps \<longrightarrow> cs \<noteq> [] \<and> Suc (closedAt (last cs)) = length ps)"
proof (rule bakeLoop_rule [OF run, where
      I = "\<lambda>i s. \<exists>cs. loopInv E A ps s0 cs i s \<and> \<not> sCancel s \<and>
              (0 < i \<and> i = length ps \<longrightarrow> cs \<noteq> [] \<and> Suc (closedAt (last cs)) = length ps)"])
  from init quiet(1)
  show "\<exists>cs. loopInv E A ps s0 cs 0 s0 \<and> \<not> sCancel s0 \<and>
              (0 < (0::nat) \<and> 0 = length ps \<longrightarrow> cs \<noteq> [] \<and> Suc (closedAt (last cs)) = length ps)"
    by auto
next
  fix i s s' assume i: "i < length ps"
    and "\<exists>cs. loopInv E A ps s0 cs i s \<and> \<not> sCancel s \<and>
              (0 < i \<and> i = length ps \<longrightarrow> cs \<noteq> [] \<and> Suc (closedAt (last cs)) = length ps)"
    and body: "loopBody E A ps i s = Inr (s', False)"
  then obtain cs where inv: "loopInv E A ps s0 cs i s" and q: "\<not> sCancel s" by blast
  from inv i body
  show "\<exists>cs. loopInv E A ps s0 cs (Suc i) s' \<and> \<not> sCancel s' \<and>
              (0 < Suc i \<and> Suc i = length ps \<longrightarrow>
                 cs \<noteq> [] \<and> Suc (closedAt (last cs)) = length ps)"
  proof (cases rule: loopInv_step)
    case skip
    with q quiet(2) i show ?thesis by auto
  next
    case (close c)
    then show ?thesis by (intro exI [of _ "cs @ [c]"]) simp
  qed
next
  fix i s s' assume i: "i < length ps"
    and "\<exists>cs. loopInv E A ps s0 cs i s \<and> \<not> sCancel s \<and>
              (0 < i \<and> i = length ps \<longrightarrow> cs \<noteq> [] \<and> Suc (closedAt (last cs)) = length ps)"
    and body: "loopBody E A ps i s = Inr (s', True)"
  then obtain cs where inv: "loopInv E A ps s0 cs i s" and q: "\<not> sCancel s" by blast
  from inv i body
  show "\<exists>cs. loopInv E A ps s0 cs (length ps) s' \<and> \<not> sCancel s' \<and>
              (0 < length ps \<longrightarrow> cs \<noteq> [] \<and> Suc (closedAt (last cs)) = length ps)"
  proof (cases rule: loopInv_step)
    case skip
    then show ?thesis by simp
  next
    case (close c)
    with q quiet(2) i show ?thesis by simp
  qed
qed auto

lemma callsOk_sorted:
  assumes "callsOk E A ps cs i s"
  shows "sorted_wrt (<) (map closedAt cs)" and "\<forall>c\<in>set cs. closedAt c < length ps"
proof -
  from assms have "sorted_wrt (\<lambda>c c'. closedAt c < closedAt c' \<and>
      (\<forall>x\<in>set (batchIndices c'). closedAt c < x)) cs"
    by (simp add: callsOk_def)
  then have "sorted_wrt (\<lambda>c c'. closedAt c < closedAt c') cs"
    by (rule sorted_wrt_mono_rel [rotated]) simp
  then show "sorted_wrt (<) (map closedAt cs)" by (simp add: sorted_wrt_map)
  from assms show "\<forall>c\<in>set cs. closedAt c < length ps" by (simp add: callsOk_def callOk_def)
qed

lemma progressOf_mono:
  assumes "0 < n" and "closedAt c \<le> closedAt c'"
  shows "progressOf n c \<le> progressOf n c'"
  using assms by (simp add: progressOf_def progressValue_mono)

lemma bake_progress:
  assumes "bake E A w = Inr r"
  shows "newProgress w r =
           (if callback A then map (progressOf (numProbes (probeBatch w))) (newCalls w r) else [])"
    and "progressReports r = progressReports w @ newProgress w r"
proof -
  from assms obtain sF j where
    inv: "loopInv E (effectiveArgs A) (probes (probeBatch w)) (initialState (effectiveArgs A) w)
       (newCalls w r) j sF"
    and r: "r = finalWorld A (afterLoop E sF)"
    by (rule bake_summary)
  from inv r have "progressReports r = progressReports w @
       (if callback A then map (progressOf (numProbes (probeBatch w))) (newCalls w r) else [])"
    by (simp add: loopInv_def numProbes_def)
  then show "newProgress w r =
           (if callback A then map (progressOf (numProbes (probeBatch w))) (newCalls w r) else [])"
    and "progressReports r = progressReports w @ newProgress w r"
    by (simp_all add: newProgress_def)
qed

lemma bake_completes:
  assumes "bake E A w = Inr r" and "\<not> sCancel w"
    and "\<forall>i<numProbes (probeBatch w). \<not> cancelRequested E i" and "0 < numProbes (probeBatch w)"
  shows "newCalls w r \<noteq> []" and "Suc (closedAt (last (newCalls w r))) = numProbes (probeBatch w)"
proof -
  let ?A = "effectiveArgs A"
  let ?ps = "probes (probeBatch w)"
  from assms(1) obtain sF where
    run: "bakeLoop E ?A ?ps 0 (initialState ?A w) = Inr sF" and r: "r = finalWorld A (afterLoop E sF)"
    by (rule bake_Inr)
  from bakeLoop_completes [OF run loopInv_initial] assms(2-4)
  obtain cs where inv: "loopInv E ?A ?ps (initialState ?A w) cs (length ?ps) sF"
    and q: "\<not> sCancel sF" and l: "cs \<noteq> [] \<and> Suc (closedAt (last cs)) = length ?ps"
    by (auto simp: numProbes_def)
  from inv r have "newCalls w r = cs" by (simp add: loopInv_def newCalls_def)
  with l show "newCalls w r \<noteq> []"
    and "Suc (closedAt (last (newCalls w r))) = numProbes (probeBatch w)"
    by (simp_all add: numProbes_def)
qed

lemma loopInv_inProgress: "loopInv E A ps s0 cs i s \<Longrightarrow> sBakeInProgress s"
  by (simp add: loopInv_def headOk_def arraysOk_def)

lemma bakeLoop_flag_clear:
  assumes run: "bakeLoop E A ps 0 s0 = Inr sF" and init: "loopInv E A ps s0 [] 0 s0"
    and ne: "0 < length ps"
  shows "\<not> sCancel sF"
proof (rule bakeLoop_rule [OF run, where
      I = "\<lambda>i s. (\<exists>cs. loopInv E A ps s0 cs i s) \<and> (i = length ps \<longrightarrow> \<not> sCancel s)"])
  from init ne show "(\<exists>cs. loopInv E A ps s0 cs 0 s0) \<and> (0 = length ps \<longrightarrow> \<not> sCancel s0)"
    by auto
next
  fix i s s' assume i: "i < length ps"
    and "(\<exists>cs. loopInv E A ps s0 cs i s) \<and> (i = length ps \<longrightarrow> \<not> sCancel s)"
    and body: "loopBody E A ps i s = Inr (s', False)"
  then obtain cs where inv: "loopInv E A ps s0 cs i s" by blast
  from inv i body
  show "(\<exists>cs. loopInv E A ps s0 cs (Suc i) s') \<and> (Suc i = length ps \<longrightarrow> \<not> sCancel s')"
    by (cases rule: loopInv_step) blast+
next
  fix i s s' assume i: "i < length ps"
    and "(\<exists>cs. loopInv E A ps s0 cs i s) \<and> (i = length ps \<longrightarrow> \<not> sCancel s)"
    and body: "loopBody E A ps i s = Inr (s', True)"
  then obtain cs where inv: "loopInv E A ps s0 cs i s" by blast
  from inv i body show "\<not> sCancel s'"
    by (cases rule: loopInv_step) simp_all
qed auto

lemma bake_cancel_flag:
  assumes "bake E A w = Inr r"
  shows "sCancel r = (cancelAfterLoop E \<or> numProbes (probeBatch w) = 0 \<and> sCancel w)"
    and "\<not> sBakeInProgress r"
proof -
  let ?A = "effectiveArgs A"
  let ?ps = "probes (probeBatch w)"
  from assms obtain sF where
    run: "bakeLoop E ?A ?ps 0 (initialState ?A w) = Inr sF"
    and r: "r = finalWorld A (afterLoop E sF)"
    by (rule bake_Inr)
  from bakeLoop_loopInv [OF run loopInv_initial] obtain cs j where
    "loopInv E ?A ?ps (initialState ?A w) cs j sF"
    by blast
  then have prog: "sBakeInProgress sF" by (rule loopInv_inProgress)
  have "sCancel sF = (numProbes (probeBatch w) = 0 \<and> sCancel w)"
  proof (cases "?ps = []")
    case True
    with run have "sF = initialState ?A w" by (simp add: bakeLoop.simps [of E ?A "[]"])
    with True show ?thesis by (simp add: numProbes_def)
  next
    case False
    with bakeLoop_flag_clear [OF run loopInv_initial] show ?thesis
      by (simp add: numProbes_def)
  qed
  with prog r show "sCancel r = (cancelAfterLoop E \<or> numProbes (probeBatch w) = 0 \<and> sCancel w)"
    by auto
  from r show "\<not> sBakeInProgress r" by simp
qed




subsection \<open>Bakes that are cancelled\<close>

lemma bakeLoop_cancelled:
  assumes run: "bakeLoop E A ps 0 s0 = Inr sF" and init: "loopInv E A ps s0 [] 0 s0"
    and k: "k < length ps" and req: "cancelRequested E k \<or> k = 0 \<and> sCancel s0"
  shows "\<exists>cs j. j \<le> length ps \<and> loopInv E A ps s0 cs j sF \<and> \<not> sCancel sF \<and> cs \<noteq> [] \<and>
              (\<forall>c\<in>set cs. k \<le> closedAt c \<longrightarrow> c = last cs)"
proof (rule bakeLoop_rule [OF run, where
      I = "\<lambda>i s. \<exists>cs. loopInv E A ps s0 cs i s \<and>
              (k < i \<or> \<not> cancelRequested E k \<longrightarrow> sCancel s \<and> (\<forall>c\<in>set cs. closedAt c < k)) \<and>
              (i = length ps \<longrightarrow> cs \<noteq> [] \<and> Suc (closedAt (last cs)) = length ps)"])
  from init k req
  show "\<exists>cs. loopInv E A ps s0 cs 0 s0 \<and>
              (k < 0 \<or> \<not> cancelRequested E k \<longrightarrow> sCancel s0 \<and> (\<forall>c\<in>set cs. closedAt c < k)) \<and>
              (0 = length ps \<longrightarrow> cs \<noteq> [] \<and> Suc (closedAt (last cs)) = length ps)"
    by (intro exI [of _ "[]"]) auto
next
  fix i s s' assume i: "i < length ps"
    and "\<exists>cs. loopInv E A ps s0 cs i s \<and>
              (k < i \<or> \<not> cancelRequested E k \<longrightarrow> sCancel s \<and> (\<forall>c\<in>set cs. closedAt c < k)) \<and>
              (i = length ps \<longrightarrow> cs \<noteq> [] \<and> Suc (closedAt (last cs)) = length ps)"
    and body: "loopBody E A ps i s = Inr (s', False)"
  then obtain cs where inv: "loopInv E A ps s0 cs i s"
    and late: "k < i \<or> \<not> cancelRequested E k \<longrightarrow> sCancel s \<and> (\<forall>c\<in>set cs. closedAt c < k)"
    by blast
  from inv have before: "\<forall>c\<in>set cs. closedAt c < i" by (simp add: loopInv_def callsOk_def)
  from inv i body
  show "\<exists>cs. loopInv E A ps s0 cs (Suc i) s' \<and>
              (k < Suc i \<or> \<not> cancelRequested E k \<longrightarrow>
                 sCancel s' \<and> (\<forall>c\<in>set cs. closedAt c < k)) \<and>
              (Suc i = length ps \<longrightarrow> cs \<noteq> [] \<and> Suc (closedAt (last cs)) = length ps)"
  proof (cases rule: loopInv_step)
    case skip
    have "sCancel s' \<and> (\<forall>c\<in>set cs. closedAt c < k)"
      if "k < Suc i \<or> \<not> cancelRequested E k"
    proof (cases "k < i \<or> \<not> cancelRequested E k")
      case True
      with late skip(3) show ?thesis by simp
    next
      case False
      with that have "k = i" by auto
      moreover from this False have "cancelRequested E i" by simp
      ultimately show ?thesis using skip(3) before by simp
    qed
    with skip show ?thesis by (intro exI [of _ cs]) simp
  next
    case (close c)
    have "\<not> (k < Suc i \<or> \<not> cancelRequested E k)"
    proof
      assume a: "k < Suc i \<or> \<not> cancelRequested E k"
      have "sCancel s \<or> cancelRequested E i"
      proof (cases "k < i \<or> \<not> cancelRequested E k")
        case True
        with late show ?thesis by simp
      next
        case False
        with a have "k = i" by auto
        with False show ?thesis by simp
      qed
      with close(3) show False by simp
    qed
    with close show ?thesis by (intro exI [of _ "cs @ [c]"]) simp
  qed
next
  fix i s s' assume i: "i < length ps"
    and "\<exists>cs. loopInv E A ps s0 cs i s \<and>
              (k < i \<or> \<not> cancelRequested E k \<longrightarrow> sCancel s \<and> (\<forall>c\<in>set cs. closedAt c < k)) \<and>
              (i = length ps \<longrightarrow> cs \<noteq> [] \<and> Suc (closedAt (last cs)) = length ps)"
    and body: "loopBody E A ps i s = Inr (s', True)"
  then obtain cs where inv: "loopInv E A ps s0 cs i s"
    and late: "k < i \<or> \<not> cancelRequested E k \<longrightarrow> sCancel s \<and> (\<forall>c\<in>set cs. closedAt c < k)"
    by blast
  from inv have before: "\<forall>c\<in>set cs. closedAt c < i" by (simp add: loopInv_def callsOk_def)
  from inv i body
  show "\<exists>cs j. j \<le> length ps \<and> loopInv E A ps s0 cs j s' \<and> \<not> sCancel s' \<and> cs \<noteq> [] \<and>
              (\<forall>c\<in>set cs. k \<le> closedAt c \<longrightarrow> c = last cs)"
  proof (cases rule: loopInv_step)
    case skip
    then show ?thesis by simp
  next
    case (close c)
    have "\<forall>c'\<in>set cs. \<not> k \<le> closedAt c'"
    proof (cases "k < i \<or> \<not> cancelRequested E k")
      case True
      with late show ?thesis by auto
    next
      case False
      with before show ?thesis by auto
    qed
    with close i show ?thesis
      by (intro exI [of _ "cs @ [c]"] exI [of _ "Suc i"]) auto
  qed
next
  fix s assume "\<exists>cs. loopInv E A ps s0 cs (length ps) s \<and>
              (k < length ps \<or> \<not> cancelRequested E k \<longrightarrow>
                 sCancel s \<and> (\<forall>c\<in>set cs. closedAt c < k)) \<and>
              (length ps = length ps \<longrightarrow> cs \<noteq> [] \<and> Suc (closedAt (last cs)) = length ps)"
  then obtain cs :: "SimCall list" where "\<forall>c\<in>set cs. closedAt c < k" and "cs \<noteq> []"
    and "Suc (closedAt (last cs)) = length ps"
    using k by auto
  with k have False by (metis last_in_set less_Suc_eq not_less_eq)
  then show "\<exists>cs j. j \<le> length ps \<and> loopInv E A ps s0 cs j s \<and> \<not> sCancel s \<and> cs \<noteq> [] \<and>
              (\<forall>c\<in>set cs. k \<le> closedAt c \<longrightarrow> c = last cs)" ..
qed simp

lemma sorted_closedAt_last:
  fixes cs :: "SimCall list"
  assumes "sorted_wrt (<) (map closedAt cs)" and "c \<in> set cs"
  shows "closedAt c \<le> closedAt (last cs)"
proof -
  from assms(2) obtain i where i: "i < length cs" and c: "c = cs ! i"
    by (auto simp: in_set_conv_nth)
  then have ne: "cs \<noteq> []" by auto
  show ?thesis
  proof (cases "i = length cs - 1")
    case True
    with c ne show ?thesis by (simp add: last_conv_nth)
  next
    case False
    with i have "i < length cs - 1" by simp
    with sorted_wrt_nth_less [OF assms(1), of i "length cs - 1"] ne
    have "map closedAt cs ! i < map closedAt cs ! (length cs - 1)"
      by simp
    with i c ne show ?thesis by (simp add: last_conv_nth)
  qed
qed

lemma bake_written:
  assumes "bake E A w = Inr r" and "c \<in> set (newCalls w r)" and "j < length (batchIndices c)"
  shows "\<exists>e. outFields c ! j = Some e \<and>
          (bakeParametric A \<longrightarrow>
             reverbOf (probeBatch r) (bakeIdentifier A) (batchIndices c ! j) = Some (estimate E e)) \<and>
          (bakeConvolution A \<longrightarrow> \<not> float_eq (simDuration A) (bakeDuration A) \<and>
             energyFieldOf (probeBatch r) (bakeIdentifier A) (batchIndices c ! j) =
               Some (copyFrom E (createEnergyField (bakeDuration A) (order A)) e))"
proof -
  from assms(1) obtain d where d: "bakedData (probeBatch r) (bakeIdentifier A) = Some d"
    and ok: "dataOk E (effectiveArgs A) (prepareData A (probeBatch w)) (newCalls w r) d"
    by (rule bake_data)
  from ok have "\<forall>c\<in>set (newCalls w r). \<forall>j<length (batchIndices c). \<exists>e.
          outFields c ! j = Some e \<and>
          (bakeParametric A \<longrightarrow> storedReverb d (batchIndices c ! j) = Some (estimate E e)) \<and>
          (bakeConvolution A \<longrightarrow> \<not> float_eq (simDuration A) (bakeDuration A) \<and>
             storedEnergyField d (batchIndices c ! j) =
               Some (copyFrom E (createEnergyField (bakeDuration A) (order A)) e))"
    by (simp add: dataOk_def)
  with assms(2,3) d show ?thesis by (simp add: reverbOf_Some)
qed

lemma bake_cancelled:
  assumes "bake E A w = Inr r" and "k < numProbes (probeBatch w)"
    and "cancelRequested E k \<or> k = 0 \<and> sCancel w"
  shows "newCalls w r \<noteq> []"
    and "\<forall>c\<in>set (newCalls w r). k \<le> closedAt c \<longrightarrow> c = last (newCalls w r)"
    and "\<forall>x. closedAt (last (newCalls w r)) < x \<longrightarrow>
              reverbOf (probeBatch r) (bakeIdentifier A) x =
                reverbOf (probeBatch w) (bakeIdentifier A) x \<and>
              energyFieldOf (probeBatch r) (bakeIdentifier A) x =
                energyFieldOf (probeBatch w) (bakeIdentifier A) x"
proof -
  let ?A = "effectiveArgs A"
  let ?ps = "probes (probeBatch w)"
  from assms(1) obtain sF where
    run: "bakeLoop E ?A ?ps 0 (initialState ?A w) = Inr sF"
    and rf: "r = finalWorld A (afterLoop E sF)"
    by (rule bake_Inr)
  from assms(2) have k: "k < length ?ps" by (simp add: numProbes_def)
  from assms(3) have "cancelRequested E k \<or> k = 0 \<and> sCancel (initialState ?A w)" by simp
  from bakeLoop_cancelled [OF run loopInv_initial k this]
  obtain cs j where inv: "loopInv E ?A ?ps (initialState ?A w) cs j sF"
    and ne: "cs \<noteq> []"
    and uniq: "\<forall>c\<in>set cs. k \<le> closedAt c \<longrightarrow> c = last cs"
    by blast
  from inv rf have cs: "newCalls w r = cs" by (simp add: loopInv_def newCalls_def)
  from inv have calls: "callsOk E ?A ?ps cs j sF" by (simp add: loopInv_def)
  have "reverbOf (probeBatch r) (bakeIdentifier A) x =
                reverbOf (probeBatch w) (bakeIdentifier A) x \<and>
              energyFieldOf (probeBatch r) (bakeIdentifier A) x =
                energyFieldOf (probeBatch w) (bakeIdentifier A) x"
    if x: "closedAt (last (newCalls w r)) < x" for x
  proof -
    have "x \<notin> set (batchIndices c)" if c: "c \<in> set (newCalls w r)" for c
    proof
      assume "x \<in> set (batchIndices c)"
      with calls c cs have "x \<le> closedAt c" by (simp add: callsOk_def callOk_def)
      also from sorted_closedAt_last [OF callsOk_sorted(1) [OF calls]] c cs
      have "closedAt c \<le> closedAt (last (newCalls w r))" by simp
      finally show False using x by simp
    qed
    then have "\<forall>c\<in>set (newCalls w r). x \<notin> set (batchIndices c)" ..
    from bake_frame [OF assms(1) this] show ?thesis by simp
  qed
  then show "\<forall>x. closedAt (last (newCalls w r)) < x \<longrightarrow>
              reverbOf (probeBatch r) (bakeIdentifier A) x =
                reverbOf (probeBatch w) (bakeIdentifier A) x \<and>
              energyFieldOf (probeBatch r) (bakeIdentifier A) x =
                energyFieldOf (probeBatch w) (bakeIdentifier A) x"
    by blast
  from ne cs show "newCalls w r \<noteq> []" by simp
  from uniq cs show "\<forall>c\<in>set (newCalls w r). k \<le> closedAt c \<longrightarrow> c = last (newCalls w r)"
    by simp
qed

lemma cancel_idle: "\<not> sBakeInProgress g \<Longrightarrow> cancel g = g"
  by (simp add: cancel_def)

subsection \<open>Convolution output\<close>

lemma bake_files:
  assumes "bake E A w = Inr r"
  shows "newFiles w r =
           (if bakeConvolution A then concat (map (callFiles E) (newCalls w r)) else [])"
proof -
  from assms obtain sF j where
    inv: "loopInv E (effectiveArgs A) (probes (probeBatch w)) (initialState (effectiveArgs A) w)
       (newCalls w r) j sF"
    and r: "r = finalWorld A (afterLoop E sF)"
    by (rule bake_summary)
  from inv r have "filesWritten r = filesWritten w @
       (if bakeConvolution A then concat (map (callFiles E) (newCalls w r)) else [])"
    by (simp add: loopInv_def)
  then show ?thesis by (simp add: newFiles_def)
qed

lemma wav_header:
  "take 13 (exportImpulseResponseAsWav ir 44100) =
     [Chars ''RIFF'', Int32 (36 + word_of_nat (length ir) * 4), Chars ''WAVE'', Chars ''fmt '',
      Int32 16, Int16 3, Int16 1, Int32 44100, Int32 176400, Int16 4, Int16 32,
      Chars ''data'', Int32 (word_of_nat (length ir) * 4)]"
  by (simp add: exportImpulseResponseAsWav_def Let_def)

lemma copied_field:
  "efDuration (copyFrom E (createEnergyField d n) e) = d"
  "efOrder (copyFrom E (createEnergyField d n) e) = n"
  "efData (copyFrom E (createEnergyField d n) e) = copyData E (createEnergyField d n) e"
  by (simp_all add: copyFrom_def createEnergyField_def)

lemma bake_convolution_differing_durations:
  assumes "bake E A w = Inr r" and "bakeConvolution A"
    and "c \<in> set (newCalls w r)" and "j < length (batchIndices c)"
  shows "\<not> float_eq (simDuration A) (bakeDuration A)"
    and "\<exists>e g. outFields c ! j = Some e \<and>
           energyFieldOf (probeBatch r) (bakeIdentifier A) (batchIndices c ! j) = Some g \<and>
           efDuration g = bakeDuration A \<and> efOrder g = order A \<and>
           efData g = copyData E (createEnergyField (bakeDuration A) (order A)) e \<and>
           (impulseResponsePath (batchIndices c ! j),
            exportImpulseResponseAsWav (getImpulseResponse E e) 44100) \<in> set (newFiles w r)"
proof -
  from bake_written [OF assms(1,3,4)] assms(2) obtain e where
    e: "outFields c ! j = Some e" and d: "\<not> float_eq (simDuration A) (bakeDuration A)"
    and g: "energyFieldOf (probeBatch r) (bakeIdentifier A) (batchIndices c ! j) =
               Some (copyFrom E (createEnergyField (bakeDuration A) (order A)) e)"
    by blast
  from d show "\<not> float_eq (simDuration A) (bakeDuration A)" .
  from assms(4) e
  have "(impulseResponsePath (batchIndices c ! j),
            exportImpulseResponseAsWav (getImpulseResponse E e) 44100) \<in> set (callFiles E c)"
    by (force simp: callFiles_def)
  with assms(2,3) bake_files [OF assms(1)]
  have "(impulseResponsePath (batchIndices c ! j),
            exportImpulseResponseAsWav (getImpulseResponse E e) 44100) \<in> set (newFiles w r)"
    by auto
  with e g show "\<exists>e g. outFields c ! j = Some e \<and>
           energyFieldOf (probeBatch r) (bakeIdentifier A) (batchIndices c ! j) = Some g \<and>
           efDuration g = bakeDuration A \<and> efOrder g = order A \<and>
           efData g = copyData E (createEnergyField (bakeDuration A) (order A)) e \<and>
           (impulseResponsePath (batchIndices c ! j),
            exportImpulseResponseAsWav (getImpulseResponse E e) 44100) \<in> set (newFiles w r)"
    by (simp add: copied_field)
qed

lemma bake_convolution_equal_durations:
  assumes "bake E A w = Inr r" and "bakeConvolution A"
    and "float_eq (simDuration A) (bakeDuration A)"
  shows "\<forall>c\<in>set (newCalls w r). batchIndices c = []"
proof
  fix c assume c: "c \<in> set (newCalls w r)"
  show "batchIndices c = []"
  proof (rule ccontr)
    assume "batchIndices c \<noteq> []"
    then have "0 < length (batchIndices c)" by simp
    from bake_convolution_differing_durations(1) [OF assms(1,2) c this] assms(3)
    show False by simp
  qed
qed

section \<open>Claims\<close>

subsection \<open>The Reverb scenario on the CPU backend\<close>




subsection \<open>Capability flags and stored data across bakes\<close>




subsection \<open>Batch sizes\<close>

text \<open>
  C3. On the CPU backend with a variation other than StaticListener every simulator call
  processes one eligible probe whatever \<open>bakeBatchSize\<close> is requested, with one exception:
  the call made at the last probe processes none when that probe is not eligible. On the
  GPU backend, or with StaticListener, a call processes at most \<open>bakeBatchSize\<close> eligible
  probes, and its batch closed because it reached \<open>bakeBatchSize\<close> or the probe list was
  exhausted. The probes of a batch are eligible probes of the list.
\<close>

theorem simulate_batch_sizes:
  assumes "bake E A w = Inr r" and "c \<in> set (newCalls w r)"
  shows "(sceneType A \<noteq> RadeonRays \<and> variation (bakeIdentifier A) \<noteq> StaticListener \<longrightarrow>
            (length (batchIndices c) = 1 \<or>
             length (batchIndices c) = 0 \<and> Suc (closedAt c) = numProbes (probeBatch w) \<and>
               \<not> probeValid E (bakeIdentifier A) (probes (probeBatch w) ! closedAt c))) \<and>
         (sceneType A = RadeonRays \<or> variation (bakeIdentifier A) = StaticListener \<longrightarrow>
            int (length (batchIndices c)) \<le> bakeBatchSize A \<and>
            (int (length (batchIndices c)) = bakeBatchSize A \<or>
             Suc (closedAt c) = numProbes (probeBatch w))) \<and>
         (\<forall>x\<in>set (batchIndices c). x < numProbes (probeBatch w) \<and>
            probeValid E (bakeIdentifier A) (probes (probeBatch w) ! x))"
proof -
  note ok = bake_calls_ok [OF assms]
  let ?k = "length (batchIndices c)"
  let ?ps = "probes (probeBatch w)"
  from ok(1) have le: "?k \<le> nat (bakeBatchSize (effectiveArgs A))"
    and cl: "int ?k = bakeBatchSize (effectiveArgs A) \<or> Suc (closedAt c) = length ?ps"
    and at: "closedAt c < length ?ps"
    and mem: "\<forall>x\<in>set (batchIndices c). x \<le> closedAt c \<and> probeValid E (bakeIdentifier A) (?ps ! x)"
    and lst: "probeValid E (bakeIdentifier A) (?ps ! closedAt c) \<longrightarrow> closedAt c \<in> set (batchIndices c)"
    by (simp_all add: callOk_def)
  have cpu: "length (batchIndices c) = 1 \<or>
             length (batchIndices c) = 0 \<and> Suc (closedAt c) = numProbes (probeBatch w) \<and>
               \<not> probeValid E (bakeIdentifier A) (?ps ! closedAt c)"
    if "sceneType A \<noteq> RadeonRays \<and> variation (bakeIdentifier A) \<noteq> StaticListener"
  proof -
    from that have b: "bakeBatchSize (effectiveArgs A) = 1" by (simp add: effectiveArgs_def)
    show ?thesis
    proof (cases "?k = 0")
      case True
      with cl b lst show ?thesis by (simp add: numProbes_def)
    next
      case False
      with le b show ?thesis by (cases "batchIndices c") simp_all
    qed
  qed
  have gpu: "int ?k \<le> bakeBatchSize A \<and>
            (int ?k = bakeBatchSize A \<or> Suc (closedAt c) = numProbes (probeBatch w))"
    if "sceneType A = RadeonRays \<or> variation (bakeIdentifier A) = StaticListener"
  proof -
    from that have b: "bakeBatchSize (effectiveArgs A) = bakeBatchSize A"
      by (auto simp: effectiveArgs_def)
    with le ok(2) cl show ?thesis by (simp add: numProbes_def)
  qed
  from mem at have "\<forall>x\<in>set (batchIndices c). x < numProbes (probeBatch w) \<and>
            probeValid E (bakeIdentifier A) (?ps ! x)"
    by (auto simp: numProbes_def)
  with cpu gpu show ?thesis by blast
qed

theorem simulate_batch_sizes_witness:
  "\<exists>r c. bake exEnv (exArgs StaticListener Default 2 False True 1 1)
             (exWorld [exProbe 0, exProbe 0, exProbe 0]) = Inr r \<and>
          c \<in> set (newCalls (exWorld [exProbe 0, exProbe 0, exProbe 0]) r) \<and>
          length (batchIndices c) = 2 \<and> int (length (batchIndices c)) \<le> 2"
proof -
  let ?A = "exArgs StaticListener Default 2 False True 1 1"
  let ?w = "exWorld [exProbe 0, exProbe 0, exProbe 0]"
  have "errorOf (bake exEnv ?A ?w) = None" by code_simp
  then obtain r where r: "bake exEnv ?A ?w = Inr r"
    by (cases "bake exEnv ?A ?w") (simp_all add: errorOf_def)
  have "callSizesOf (bake exEnv ?A ?w) = [2, 1]" by code_simp
  with r obtain c c' where cs: "simCalls r = [c, c']" and k: "length (batchIndices c) = 2"
    by (auto simp: callSizesOf_def)
  then have n: "c \<in> set (newCalls ?w r)" by (simp add: newCalls_def exWorld_def)
  from simulate_batch_sizes [OF r n]
  have "int (length (batchIndices c)) \<le> 2"
    by (simp add: exArgs_def exIdentifier_def exWorld_def numProbes_def)
  with r n k show ?thesis by blast
qed

text \<open>
  The claim as stated fails: on the CPU backend with StaticSource, a probe inside the
  endpoint's region followed by one outside gives a second simulator call with no probe.
\<close>

theorem cpu_trailing_call_is_empty:
  "callSizesOf (bake exEnv (exArgs StaticSource Default 4 False True 1 1)
                  (exWorld [exProbe 0, exProbe 1])) = [1, 0]"
  by code_simp

subsection \<open>The diagnostic impulse response file\<close>

text \<open>
  C4. Whenever convolution output is requested, a diagnostic WAV file is to be written for
  every eligible probe after its field has been stored, from the impulse response of the
  simulated field. The source reads \<^verbatim>\<open>energyFields[j]\<close> on line 240, after line 230 has
  moved it into \<open>energyField\<close> when the two durations are equal: the pointer is null by
  then. For one probe, variation Reverb, the CPU backend and equal durations the bake stops
  at that dereference and writes no file. With differing durations the file of every probe
  of a batch is written at \<open>impulseResponsePath\<close> with the header of \<open>wav_header\<close>
  (\<open>bake_convolution_differing_durations\<close>).
\<close>

theorem bake_equal_durations_null_dereference:
  "bake exEnv (exArgs Reverb Default 4 True False 1 1) (exWorld [exProbe 0])
     = Inl NullPointerDereference"
  by (simp add: bake_def exEnv_def exArgs_def exWorld_def exProbe_def exSphere_def
      exIdentifier_def effectiveArgs_def initialState_def prepareData_def bakeLoop.simps
      loopBody_def addProbe_def selectEndpoints_def batchCloses_def simulateBatch_def
      writeBack_def storeEnergyField_def simulatedFields_def issuedCall_def
      endpointCounts_def Let_def)

subsection \<open>Endpoint counts of a simulator call\<close>

text \<open>
  C5. A dispatched batch of \<open>k\<close> eligible probes is simulated with \<open>k\<close> sources and one
  listener by default; on the GPU backend with one source and \<open>k\<close> listeners for
  StaticSource, \<open>k\<close> sources and one listener for StaticListener, and \<open>k\<close> of each for
  Reverb.
\<close>

theorem simulate_endpoint_counts:
  assumes "bake E A w = Inr r" and "c \<in> set (newCalls w r)"
  shows "(sceneType A \<noteq> RadeonRays \<longrightarrow>
            numSources c = int (length (batchIndices c)) \<and> numListeners c = 1) \<and>
         (sceneType A = RadeonRays \<and> variation (bakeIdentifier A) = StaticSource \<longrightarrow>
            numSources c = 1 \<and> numListeners c = int (length (batchIndices c))) \<and>
         (sceneType A = RadeonRays \<and> variation (bakeIdentifier A) = StaticListener \<longrightarrow>
            numSources c = int (length (batchIndices c)) \<and> numListeners c = 1) \<and>
         (sceneType A = RadeonRays \<and> variation (bakeIdentifier A) = Reverb \<longrightarrow>
            numSources c = int (length (batchIndices c)) \<and>
            numListeners c = int (length (batchIndices c)))"
proof -
  from bake_calls_ok(1) [OF assms]
  have "(numSources c, numListeners c) =
        endpointCounts (sceneType A) (variation (bakeIdentifier A)) (length (batchIndices c))"
    by (simp add: callOk_def)
  then show ?thesis
    by (auto simp: endpointCounts_def split: if_splits)
qed

theorem simulate_endpoint_counts_witness:
  "\<exists>r c. bake exEnv (exArgs Reverb RadeonRays 4 False True 1 1) (exWorld [exProbe 0, exProbe 1])
             = Inr r \<and>
          newCalls (exWorld [exProbe 0, exProbe 1]) r = [c] \<and>
          numSources c = 2 \<and> numListeners c = 2"
proof -
  let ?A = "exArgs Reverb RadeonRays 4 False True 1 1"
  let ?w = "exWorld [exProbe 0, exProbe 1]"
  have "errorOf (bake exEnv ?A ?w) = None" by code_simp
  then obtain r where r: "bake exEnv ?A ?w = Inr r"
    by (cases "bake exEnv ?A ?w") (simp_all add: errorOf_def)
  have "callSizesOf (bake exEnv ?A ?w) = [2]" by code_simp
  with r obtain c where c: "simCalls r = [c]" and k: "length (batchIndices c) = 2"
    by (auto simp: callSizesOf_def)
  then have n: "newCalls ?w r = [c]" by (simp add: newCalls_def exWorld_def)
  then have "c \<in> set (newCalls ?w r)" by simp
  from simulate_endpoint_counts [OF r this] k
  have "numSources c = 2 \<and> numListeners c = 2"
    by (simp add: exArgs_def exIdentifier_def)
  with r n show ?thesis by blast
qed

subsection \<open>Storing the energy field\<close>

text \<open>
  C6. With equal durations the simulated field of every eligible probe is to be moved into
  storage, the stored field being the simulated one. The source does move and store the
  field (lines 230 and 238) and then dereferences the emptied \<^verbatim>\<open>energyFields[j]\<close> on line
  240. On the GPU backend with two eligible probes in one batch, both outputs requested and
  equal durations, the bake stops at that dereference, before the field of the second probe
  is stored, and returns no batch. In general (\<open>bake_convolution_equal_durations\<close>) a
  convolution bake with equal durations that returns has simulated no probe at all; with
  differing durations every probe of a batch gets a field of duration \<open>bakeDuration\<close> and
  of the requested order that holds the copied content
  (\<open>bake_convolution_differing_durations\<close>).
\<close>

theorem bake_equal_durations_stops_before_second_field:
  "errorOf (bake exEnv (exArgs StaticListener RadeonRays 2 True True 2 2)
              (exWorld [exProbe 0, exProbe 0]))
     = Some NullPointerDereference"
  by code_simp

subsection \<open>Probes outside the endpoint's region\<close>

text \<open>
  C7. With variation StaticSource or StaticListener a probe is eligible exactly when
  \<open>endpointInfluence\<close> contains its centre; the batches of the simulator calls hold eligible
  probes only; and the stored Reverb and Energy Field of every probe that is not an eligible
  probe of the list are, after the bake, what they were before.
\<close>

theorem static_endpoint_frame:
  assumes "bake E A w = Inr r"
    and "variation (bakeIdentifier A) = StaticSource \<or> variation (bakeIdentifier A) = StaticListener"
  shows "(\<forall>p. probeValid E (bakeIdentifier A) p =
              contains E (endpointInfluence (bakeIdentifier A)) (center (influence p))) \<and>
         (\<forall>c\<in>set (newCalls w r). \<forall>x\<in>set (batchIndices c).
              x < numProbes (probeBatch w) \<and>
              contains E (endpointInfluence (bakeIdentifier A))
                (center (influence (probes (probeBatch w) ! x)))) \<and>
         (\<forall>i. \<not> (i < numProbes (probeBatch w) \<and>
                  contains E (endpointInfluence (bakeIdentifier A))
                    (center (influence (probes (probeBatch w) ! i)))) \<longrightarrow>
              reverbOf (probeBatch r) (bakeIdentifier A) i =
                reverbOf (probeBatch w) (bakeIdentifier A) i \<and>
              energyFieldOf (probeBatch r) (bakeIdentifier A) i =
                energyFieldOf (probeBatch w) (bakeIdentifier A) i)"
proof -
  let ?inside = "\<lambda>p. contains E (endpointInfluence (bakeIdentifier A)) (center (influence p))"
  from assms(2) have valid: "probeValid E (bakeIdentifier A) p = ?inside p" for p
    by (auto simp: probeValid_def selectEndpoints_def)
  have members: "x < numProbes (probeBatch w) \<and> ?inside (probes (probeBatch w) ! x)"
    if "c \<in> set (newCalls w r)" and "x \<in> set (batchIndices c)" for c x
    using bake_calls_ok(1) [OF assms(1) that(1)] that(2) valid
    by (auto simp: callOk_def numProbes_def)
  have frame: "reverbOf (probeBatch r) (bakeIdentifier A) i =
                reverbOf (probeBatch w) (bakeIdentifier A) i \<and>
              energyFieldOf (probeBatch r) (bakeIdentifier A) i =
                energyFieldOf (probeBatch w) (bakeIdentifier A) i"
    if "\<not> (i < numProbes (probeBatch w) \<and> ?inside (probes (probeBatch w) ! i))" for i
  proof -
    from that members have "\<forall>c\<in>set (newCalls w r). i \<notin> set (batchIndices c)" by blast
    from bake_frame [OF assms(1) this] show ?thesis by simp
  qed
  from valid members frame show ?thesis by blast
qed

theorem static_endpoint_frame_witness:
  "\<exists>r. bake exEnv (exArgs StaticSource Default 1 False True 1 1)
           (exWorld [exProbe 0, exProbe 1, exProbe 0]) = Inr r \<and>
        reverbOf (probeBatch r) (exIdentifier StaticSource) 0 \<noteq> None \<and>
        reverbOf (probeBatch r) (exIdentifier StaticSource) 1 = None"
proof -
  let ?A = "exArgs StaticSource Default 1 False True 1 1"
  let ?w = "exWorld [exProbe 0, exProbe 1, exProbe 0]"
  have "errorOf (bake exEnv ?A ?w) = None" by code_simp
  then obtain r where r: "bake exEnv ?A ?w = Inr r"
    by (cases "bake exEnv ?A ?w") (simp_all add: errorOf_def)
  have v: "variation (bakeIdentifier ?A) = StaticSource \<or>
           variation (bakeIdentifier ?A) = StaticListener"
    by (simp add: exArgs_def exIdentifier_def)
  have "reverbsOf (exIdentifier StaticSource) 1 (bake exEnv ?A ?w)
          = [Some (ReverbTimes [Num 0, Num 0])]"
    by code_simp
  with r have r0: "reverbOf (probeBatch r) (exIdentifier StaticSource) 0 \<noteq> None"
    by (simp add: reverbsOf_def)
  have out: "\<not> (1 < numProbes (probeBatch ?w) \<and>
        contains exEnv (endpointInfluence (bakeIdentifier ?A))
          (center (influence (probes (probeBatch ?w) ! 1))))"
    by (simp add: exEnv_def exArgs_def exIdentifier_def exWorld_def exProbe_def exSphere_def)
  from static_endpoint_frame [OF r v] out
  have "reverbOf (probeBatch r) (bakeIdentifier ?A) 1 = reverbOf (probeBatch ?w) (bakeIdentifier ?A) 1"
    by blast
  then have "reverbOf (probeBatch r) (exIdentifier StaticSource) 1 = None"
    by (simp add: exArgs_def exWorld_def reverbOf_def)
  with r r0 show ?thesis by blast
qed

subsection \<open>Cancellation\<close>

text \<open>
  C8. A call of \<^verbatim>\<open>cancel()\<close> while a bake is in progress is to stop that bake at the next
  batch boundary, where the flag is cleared, and a call while no bake is in progress is to
  leave the next bake alone. The source does this for a call that takes effect before the
  loop reads the flag for the last time: at most one batch closes from that iteration on,
  it is the last batch of the bake, probes after it keep their data, the probes of every
  batch hold what was written (\<open>bake_cancelled\<close>, \<open>bake_written\<close>), the flag is clear when the
  loop ends (\<open>bakeLoop_flag_clear\<close>), and a call while \<open>sBakeInProgress\<close> is false changes
  nothing (\<open>cancel_idle\<close>). But \<open>sBakeInProgress\<close> stays true until line 262, and nothing
  reads or clears \<open>sCancel\<close> between the last pass through line 254 and the return, nor at
  line 99 of the next bake. A call that takes effect in between stops nothing and leaves the
  flag set when \<^verbatim>\<open>bake\<close> returns (\<open>bake_cancel_flag\<close>), and the next bake, during which
  nobody calls \<^verbatim>\<open>cancel()\<close>, stops after its first batch. Below, a parametric bake of three
  probes with such a late call makes its three simulator calls and returns with the flag
  set; the bake that follows, for another identifier that all three probes are eligible for,
  makes one call instead of three, stores a Reverb for the first probe only, and clears the
  flag.
\<close>

theorem late_cancel_request_stops_next_bake:
  "cancelFlagOf (bake exEnvLate (exArgs Reverb Default 1 False True 1 1)
                   (exWorld [exProbe 0, exProbe 0, exProbe 0])) = Some True \<and>
   callSizesOf (bake exEnvLate (exArgs Reverb Default 1 False True 1 1)
                  (exWorld [exProbe 0, exProbe 0, exProbe 0])) = [1, 1, 1] \<and>
   callSizesOf (thenBake exEnv (exArgs StaticListener Default 1 False True 1 1)
                  (bake exEnvLate (exArgs Reverb Default 1 False True 1 1)
                     (exWorld [exProbe 0, exProbe 0, exProbe 0]))) = [1, 1, 1, 1] \<and>
   reverbsOf (exIdentifier StaticListener) 3
     (thenBake exEnv (exArgs StaticListener Default 1 False True 1 1)
        (bake exEnvLate (exArgs Reverb Default 1 False True 1 1)
           (exWorld [exProbe 0, exProbe 0, exProbe 0])))
     = [Some (ReverbTimes [Num 3, Num 0]), None, None] \<and>
   cancelFlagOf (thenBake exEnv (exArgs StaticListener Default 1 False True 1 1)
                   (bake exEnvLate (exArgs Reverb Default 1 False True 1 1)
                      (exWorld [exProbe 0, exProbe 0, exProbe 0]))) = Some False \<and>
   callSizesOf (thenBake exEnv (exArgs StaticListener Default 1 False True 1 1)
                  (bake exEnv (exArgs Reverb Default 1 False True 1 1)
                     (exWorld [exProbe 0, exProbe 0, exProbe 0]))) = [1, 1, 1, 1, 1, 1]"
  by code_simp

subsection \<open>Progress reports\<close>

text \<open>
  C9. With a callback, one progress value is reported per simulator call, in order, after
  the write-back of its batch; the value after the batch that closed at probe \<open>i\<close> is the
  single-precision result of \<^verbatim>\<open>(i + 1.0f) / numProbes\<close>, which for at most \<open>2 ^ 24\<close> probes
  is the quotient \<open>(i + 1) / numProbes\<close> rounded to single precision; the closing indices
  increase strictly and the values do not decrease; without a callback nothing is reported.
  When no cancellation is pending or requested and there are at most \<open>2 ^ 24\<close> probes, the
  last value is 1.
\<close>

theorem progress_reports:
  assumes "bake E A w = Inr r"
  shows "(callback A \<longrightarrow>
            newProgress w r =
              map (\<lambda>c. progressValue (closedAt c) (numProbes (probeBatch w))) (newCalls w r)) \<and>
         (\<not> callback A \<longrightarrow> progressReports r = progressReports w) \<and>
         progressReports r = progressReports w @ newProgress w r \<and>
         sorted_wrt (<) (map closedAt (newCalls w r)) \<and>
         sorted (newProgress w r) \<and>
         (numProbes (probeBatch w) \<le> 2 ^ 24 \<longrightarrow>
            (\<forall>c\<in>set (newCalls w r).
                progressValue (closedAt c) (numProbes (probeBatch w)) =
                  round32 (of_nat (Suc (closedAt c)) / of_nat (numProbes (probeBatch w))))) \<and>
         (callback A \<and> \<not> sCancel w \<and> (\<forall>i<numProbes (probeBatch w). \<not> cancelRequested E i) \<and>
            0 < numProbes (probeBatch w) \<and> numProbes (probeBatch w) \<le> 2 ^ 24 \<longrightarrow>
            newProgress w r \<noteq> [] \<and> last (newProgress w r) = 1)"
proof -
  let ?n = "numProbes (probeBatch w)"
  note pr = bake_progress [OF assms]
  from assms obtain sF j where
    inv: "loopInv E (effectiveArgs A) (probes (probeBatch w)) (initialState (effectiveArgs A) w)
       (newCalls w r) j sF"
    by (rule bake_summary)
  then have "callsOk E (effectiveArgs A) (probes (probeBatch w)) (newCalls w r) j sF"
    by (simp add: loopInv_def)
  note so = callsOk_sorted [OF this]
  have vals: "callback A \<longrightarrow>
      newProgress w r = map (\<lambda>c. progressValue (closedAt c) ?n) (newCalls w r)"
    using pr(1) by (simp add: progressOf_def)
  have mono: "sorted (newProgress w r)"
  proof (cases "callback A")
    case False
    with pr(1) show ?thesis by simp
  next
    case True
    have "sorted_wrt (\<lambda>c c'. progressOf ?n c \<le> progressOf ?n c') (newCalls w r)"
    proof (rule sorted_wrt_mono_rel [of _ "\<lambda>c c'. closedAt c < closedAt c'"])
      fix c c' :: SimCall
      assume "c \<in> set (newCalls w r)" and "closedAt c < closedAt c'"
      with so(2) show "progressOf ?n c \<le> progressOf ?n c'"
        by (intro progressOf_mono) (auto simp: numProbes_def)
    next
      from so(1) show "sorted_wrt (\<lambda>c c'. closedAt c < closedAt c') (newCalls w r)"
        by (simp add: sorted_wrt_map)
    qed
    with True pr(1) show ?thesis by (simp add: sorted_wrt_map)
  qed
  have once: "progressValue (closedAt c) ?n = round32 (of_nat (Suc (closedAt c)) / of_nat ?n)"
    if "?n \<le> 2 ^ 24" and "c \<in> set (newCalls w r)" for c
    using that so(2) by (intro progressValue_exact_operands) (simp_all add: numProbes_def)
  have final: "newProgress w r \<noteq> [] \<and> last (newProgress w r) = 1"
    if "callback A \<and> \<not> sCancel w \<and> (\<forall>i<?n. \<not> cancelRequested E i) \<and> 0 < ?n \<and> ?n \<le> 2 ^ 24"
  proof -
    from that bake_completes [OF assms]
    have ne: "newCalls w r \<noteq> []" and l: "Suc (closedAt (last (newCalls w r))) = ?n"
      by simp_all
    from l have "closedAt (last (newCalls w r)) = ?n - 1" by simp
    moreover from that have "progressValue (?n - 1) ?n = 1"
      by (intro progressValue_last) simp_all
    ultimately have "progressOf ?n (last (newCalls w r)) = 1"
      by (simp only: progressOf_def)
    with ne show ?thesis using that pr(1) by (simp add: last_map)
  qed
  from pr have none: "\<not> callback A \<longrightarrow> progressReports r = progressReports w" by simp
  from once have "?n \<le> 2 ^ 24 \<longrightarrow>
      (\<forall>c\<in>set (newCalls w r).
          progressValue (closedAt c) ?n = round32 (of_nat (Suc (closedAt c)) / of_nat ?n))"
    by blast
  moreover from final
  have "callback A \<and> \<not> sCancel w \<and> (\<forall>i<?n. \<not> cancelRequested E i) \<and> 0 < ?n \<and> ?n \<le> 2 ^ 24 \<longrightarrow>
      newProgress w r \<noteq> [] \<and> last (newProgress w r) = 1"
    by blast
  ultimately show ?thesis using vals none pr(2) so(1) mono by (intro conjI)
qed

theorem progress_reports_witness:
  "\<exists>r. bake exEnv (exArgs StaticListener Default 2 False True 1 1)
           (exWorld [exProbe 0, exProbe 0, exProbe 0]) = Inr r \<and>
        newProgress (exWorld [exProbe 0, exProbe 0, exProbe 0]) r = [11184811 / 16777216, 1] \<and>
        sorted (newProgress (exWorld [exProbe 0, exProbe 0, exProbe 0]) r) \<and>
        last (newProgress (exWorld [exProbe 0, exProbe 0, exProbe 0]) r) = 1"
proof -
  let ?A = "exArgs StaticListener Default 2 False True 1 1"
  let ?w = "exWorld [exProbe 0, exProbe 0, exProbe 0]"
  have "errorOf (bake exEnv ?A ?w) = None" by code_simp
  then obtain r where r: "bake exEnv ?A ?w = Inr r"
    by (cases "bake exEnv ?A ?w") (simp_all add: errorOf_def)
  have "progressFrom ?w (bake exEnv ?A ?w) = [11184811 / 16777216, 1]" by code_simp
  with r have p: "newProgress ?w r = [11184811 / 16777216, 1]" by (simp add: progressFrom_def)
  have "callback ?A \<and> \<not> sCancel ?w \<and> (\<forall>i<numProbes (probeBatch ?w). \<not> cancelRequested exEnv i) \<and>
            0 < numProbes (probeBatch ?w) \<and> numProbes (probeBatch ?w) \<le> 2 ^ 24"
    by (simp add: exArgs_def exWorld_def exEnv_def numProbes_def)
  with progress_reports [OF r]
  have "sorted (newProgress ?w r)" and "last (newProgress ?w r) = 1" by blast+
  with r p show ?thesis by blast
qed

text \<open>
  The claim as stated fails. The value reported is not the quotient but the float nearest to
  it: in the bake above the first value is \<open>11184811 / 2 ^ 24\<close>, not \<open>2 / 3\<close>. And the last
  value of a bake that runs to completion is not always 1: with \<open>2 ^ 24 + 2\<close> probes on the
  CPU backend, none of them eligible, the one batch closes at \<open>i = 2 ^ 24 + 1\<close>, which the
  conversion to \<^verbatim>\<open>float\<close> rounds to \<open>2 ^ 24\<close>; adding \<^verbatim>\<open>1.0f\<close> gives \<open>2 ^ 24 + 1\<close>, rounded
  to \<open>2 ^ 24\<close> again; and \<open>2 ^ 24 / (2 ^ 24 + 2)\<close> is rounded to \<open>1 - 2 ^ (- 23)\<close>, that is
  \<open>8388607 / 8388608\<close>, the value reported.
\<close>

theorem progress_of_large_bake_ends_below_one:
  "progressFrom (exWorld [exProbe 0, exProbe 0, exProbe 0])
     (bake exEnv (exArgs StaticListener Default 2 False True 1 1)
        (exWorld [exProbe 0, exProbe 0, exProbe 0])) = [11184811 / 16777216, 1] \<and>
   (11184811 / 16777216 :: rat) \<noteq> 2 / 3 \<and>
   errorOf (bake exEnv (exArgs StaticSource Default 1 False True 1 1)
              (exWorld (replicate 16777218 (exProbe 1)))) = None \<and>
   last (progressFrom (exWorld (replicate 16777218 (exProbe 1)))
           (bake exEnv (exArgs StaticSource Default 1 False True 1 1)
              (exWorld (replicate 16777218 (exProbe 1))))) = 8388607 / 8388608 \<and>
   (8388607 / 8388608 :: rat) \<noteq> 1"
proof -
  let ?A = "exArgs StaticSource Default 1 False True 1 1"
  let ?w = "exWorld (replicate 16777218 (exProbe 1))"
  have n: "numProbes (probeBatch ?w) = 16777218" by (simp add: exWorld_def numProbes_def)
  have "\<exists>r. bake exEnv ?A ?w = Inr r"
    by (rule bake_succeeds) (simp_all add: exArgs_def exIdentifier_def effectiveArgs_def)
  then obtain r where r: "bake exEnv ?A ?w = Inr r" ..
  have quiet: "\<not> sCancel ?w" "\<forall>i<numProbes (probeBatch ?w). \<not> cancelRequested exEnv i"
    "0 < numProbes (probeBatch ?w)"
    by (simp_all add: exWorld_def exEnv_def numProbes_def)
  from bake_completes [OF r quiet]
  have ne: "newCalls ?w r \<noteq> []" and l: "closedAt (last (newCalls ?w r)) = 16777217"
    by (simp_all add: n)
  have "callback ?A" by (simp add: exArgs_def)
  with bake_progress(1) [OF r] have "newProgress ?w r = map (progressOf 16777218) (newCalls ?w r)"
    by (simp add: n)
  with ne l have "last (newProgress ?w r) = progressValue 16777217 16777218"
    by (simp add: last_map progressOf_def)
  also have "\<dots> = round32 (round32 (round32 16777217 + 1) / round32 16777218)"
    by (simp add: progressValue_def int_to_float_def)
  also have "\<dots> = 8388607 / 8388608" by code_simp
  finally have big: "last (progressFrom ?w (bake exEnv ?A ?w)) = 8388607 / 8388608"
    by (simp add: r progressFrom_def)
  have small: "progressFrom (exWorld [exProbe 0, exProbe 0, exProbe 0])
     (bake exEnv (exArgs StaticListener Default 2 False True 1 1)
        (exWorld [exProbe 0, exProbe 0, exProbe 0])) = [11184811 / 16777216, 1]"
    by code_simp
  from r have "errorOf (bake exEnv ?A ?w) = None" by (simp add: errorOf_def)
  with small big show ?thesis by simp
qed

subsection \<open>The empty batch at the last probe\<close>

text \<open>
  C10. Where the batch is empty at probe \<open>i\<close> and no probe from \<open>i\<close> on is eligible, the
  loop still closes a batch at the last probe: it makes exactly one more simulator call,
  for no probe, with the endpoint counts of an empty batch (no source and one listener by
  default), calls the callback, if there is one, with the progress value of the last probe,
  and reads the cancellation flag: a request pending or made during these iterations is
  taken there, and the flag is clear when the loop ends.
\<close>

theorem trailing_empty_batch_is_dispatched:
  assumes run: "bakeLoop E A ps i s = Inr r" and i: "i < length ps"
    and empty: "numValidInBatch s = 0" and size: "0 < bakeBatchSize A"
    and inel: "\<forall>j. i \<le> j \<and> j < length ps \<longrightarrow> \<not> probeValid E (bakeIdentifier A) (ps ! j)"
  shows "\<exists>c. simCalls r = simCalls s @ [c] \<and> batchIndices c = [] \<and>
             Suc (closedAt c) = length ps \<and>
             (numSources c, numListeners c) =
                endpointCounts (sceneType A) (variation (bakeIdentifier A)) 0 \<and>
             (sceneType A \<noteq> RadeonRays \<longrightarrow> numSources c = 0 \<and> numListeners c = 1) \<and>
             progressReports r = progressReports s @
                (if callback A then [progressValue (closedAt c) (length ps)] else []) \<and>
             \<not> sCancel r"
    (is "?R r")
proof -
  have step: "(\<not> stop \<and> Suc j < length ps \<and> numValidInBatch t' = 0 \<and> simCalls t' = simCalls s \<and>
            progressReports t' = progressReports s) \<or>
        (Suc j = length ps \<and> ?R t')"
    if j: "j < length ps" and ij: "i \<le> j" and e: "numValidInBatch t = 0"
      and tr: "simCalls t = simCalls s" and pr: "progressReports t = progressReports s"
      and body: "loopBody E A ps j t = Inr (t', stop)"
    for j t t' stop
  proof -
    from inel ij j have nv: "\<not> probeValid E (bakeIdentifier A) (ps ! j)" by simp
    from body show ?thesis
    proof (cases rule: loopBody_Inr)
      case (skip s1)
      from addProbe_numValid(3) [OF skip(1) nv]
      have s1: "s1 = (if cancelRequested E j then cancel t else t)" .
      from skip(2) j have "Suc j < length ps" by (auto simp: batchCloses_def)
      with skip(3,4) e tr pr show ?thesis by (simp add: s1)
    next
      case (close s1 rv ev fw)
      from addProbe_numValid(3) [OF close(1) nv]
      have s1: "s1 = (if cancelRequested E j then cancel t else t)" .
      with e have k: "numValidInBatch s1 = 0" by simp
      with close(2) size have last: "Suc j = length ps" by (auto simp: batchCloses_def)
      let ?c = "issuedCall E A j s1"
      from s1 tr pr have "simCalls s1 = simCalls s" and "progressReports s1 = progressReports s"
        by simp_all
      then have "simCalls t' = simCalls s @ [?c]" and "batchIndices ?c = []"
        and "Suc (closedAt ?c) = length ps"
        and "(numSources ?c, numListeners ?c) =
                  endpointCounts (sceneType A) (variation (bakeIdentifier A)) 0"
        and "progressReports t' = progressReports s @
                (if callback A then [progressValue (closedAt ?c) (length ps)] else [])"
        and "\<not> sCancel t'"
        using last k by (simp_all add: close(4))
      moreover from k
      have "sceneType A \<noteq> RadeonRays \<longrightarrow> numSources ?c = 0 \<and> numListeners ?c = 1"
        by (simp add: endpointCounts_def)
      ultimately have "?R t'" by blast
      with last show ?thesis by simp
    qed
  qed
  show ?thesis
  proof (rule bakeLoop_rule [OF run, where
      I = "\<lambda>j t. j < length ps \<and> i \<le> j \<and> numValidInBatch t = 0 \<and> simCalls t = simCalls s \<and>
                    progressReports t = progressReports s \<or>
                  j = length ps \<and> ?R t"])
    from i empty
    show "i < length ps \<and> i \<le> i \<and> numValidInBatch s = 0 \<and> simCalls s = simCalls s \<and>
            progressReports s = progressReports s \<or> i = length ps \<and> ?R s"
      by simp
  next
    from i show "i \<le> length ps" by simp
  next
    fix s' assume "length ps < length ps \<and> i \<le> length ps \<and> numValidInBatch s' = 0 \<and>
        simCalls s' = simCalls s \<and> progressReports s' = progressReports s \<or>
        length ps = length ps \<and> ?R s'"
    then show "?R s'" by simp
  next
    fix j t t'
    assume j: "j < length ps"
      and inv: "j < length ps \<and> i \<le> j \<and> numValidInBatch t = 0 \<and> simCalls t = simCalls s \<and>
                  progressReports t = progressReports s \<or> j = length ps \<and> ?R t"
      and body: "loopBody E A ps j t = Inr (t', False)"
    from inv j have "i \<le> j" "numValidInBatch t = 0" "simCalls t = simCalls s"
      "progressReports t = progressReports s"
      by simp_all
    from step [OF j this body] this(1)
    show "Suc j < length ps \<and> i \<le> Suc j \<and> numValidInBatch t' = 0 \<and>
          simCalls t' = simCalls s \<and> progressReports t' = progressReports s \<or>
          Suc j = length ps \<and> ?R t'"
      by auto
  next
    fix j t t'
    assume j: "j < length ps"
      and inv: "j < length ps \<and> i \<le> j \<and> numValidInBatch t = 0 \<and> simCalls t = simCalls s \<and>
                  progressReports t = progressReports s \<or> j = length ps \<and> ?R t"
      and body: "loopBody E A ps j t = Inr (t', True)"
    from inv j have "i \<le> j" "numValidInBatch t = 0" "simCalls t = simCalls s"
      "progressReports t = progressReports s"
      by simp_all
    from step [OF j this body] show "?R t'" by auto
  qed
qed

theorem trailing_empty_batch_is_dispatched_witness:
  "\<exists>r c. bakeLoop (exEnvCancel 1) (effectiveArgs (exArgs StaticSource Default 4 False True 1 1))
             [exProbe 1, exProbe 1] 0
             (initialState (effectiveArgs (exArgs StaticSource Default 4 False True 1 1))
                (exWorld [exProbe 1, exProbe 1])) = Inr r \<and>
          simCalls r = [c] \<and> batchIndices c = [] \<and> closedAt c = 1 \<and>
          numSources c = 0 \<and> numListeners c = 1 \<and>
          progressReports r = [1] \<and> \<not> sCancel r"
proof -
  let ?E = "exEnvCancel 1"
  let ?A = "effectiveArgs (exArgs StaticSource Default 4 False True 1 1)"
  let ?ps = "[exProbe 1, exProbe 1]"
  let ?s = "initialState ?A (exWorld ?ps)"
  have size: "0 < bakeBatchSize ?A"
    by (simp add: effectiveArgs_def exArgs_def exIdentifier_def)
  have "headOk ?E ?A ?ps 0 ?s"
    using loopInv_initial [of ?E ?A ?ps "exWorld ?ps"] by (simp add: loopInv_def)
  from bakeLoop_succeeds [OF size _ this] obtain r where r: "bakeLoop ?E ?A ?ps 0 ?s = Inr r"
    by (auto simp: exArgs_def)
  have inel: "\<forall>j. 0 \<le> j \<and> j < length ?ps \<longrightarrow> \<not> probeValid ?E (bakeIdentifier ?A) (?ps ! j)"
  proof (intro allI impI)
    fix j :: nat assume "0 \<le> j \<and> j < length ?ps"
    then have "j = 0 \<or> j = 1" by auto
    then show "\<not> probeValid ?E (bakeIdentifier ?A) (?ps ! j)"
      by (auto simp: probeValid_def selectEndpoints_def exArgs_def exIdentifier_def exEnv_def
          exEnvCancel_def exProbe_def exSphere_def)
  qed
  have one: "progressValue (Suc 0) (Suc (Suc 0)) = 1" by code_simp
  from trailing_empty_batch_is_dispatched [OF r _ _ size inel]
  obtain c where "simCalls r = simCalls ?s @ [c]" and "batchIndices c = []"
    and "Suc (closedAt c) = length ?ps"
    and "sceneType ?A \<noteq> RadeonRays \<longrightarrow> numSources c = 0 \<and> numListeners c = 1"
    and "progressReports r = progressReports ?s @
           (if callback ?A then [progressValue (closedAt c) (length ?ps)] else [])"
    and "\<not> sCancel r"
    by auto
  then have "simCalls r = [c] \<and> batchIndices c = [] \<and> closedAt c = 1 \<and>
          numSources c = 0 \<and> numListeners c = 1 \<and>
          progressReports r = [1] \<and> \<not> sCancel r"
    by (simp add: exArgs_def exWorld_def one)
  with r show ?thesis by blast
qed

end
